theory Spec2Isabelle
  imports Main
begin

section \<open>Data model of package cancel\<close>

text \<open>
  A Go channel of type \<open>chan struct{}\<close> on which nobody ever sends is, for an
  observer, one bit: open or closed.  The heap of channels is a list of these
  bits, a channel value is an index into it, and the nil channel is \<open>None\<close>.
  A receive on a closed channel is ready at once, a receive on an open or a nil
  channel blocks.
\<close>

type_synonym chan = nat

text \<open>The run-time panics the statements of the package can raise.\<close>

datatype panic =
    NilDereference    \<comment> \<open>a method called through a \<open>*Signal\<close> that points at nothing\<close>
  | CloseNilChannel   \<comment> \<open>\<open>close\<close> of the nil channel\<close>
  | CloseClosedChannel \<comment> \<open>\<open>close\<close> of a channel that is closed already\<close>

text \<open>
  \<open>type Signal struct { done chan struct{}; make sync.Once; close sync.Once }\<close>.
  A \<open>sync.Once\<close> is the flag that says whether its function has run.  The
  fields \<open>done\<close>, \<open>make\<close> and \<open>close\<close> are \<open>done_ch\<close>, \<open>make_once\<close> and
  \<open>close_once\<close> here, the first two names being taken in Isabelle.
\<close>

record Signal =
  done_ch :: "chan option"
  make_once :: bool
  close_once :: bool

text \<open>
  The standard library's \<open>context.WithCancel(context.Background())\<close> gives a
  context with its own channel and a cancel function that closes it on its
  first call and does nothing afterwards.
\<close>

record cancelCtx =
  cdone :: chan
  cerr :: bool

text \<open>
  The implementations of \<open>interface Context { Done() <-chan struct{} }\<close>: a
  \<open>*Signal\<close> of this package and a standard-library context.
\<close>

datatype Context = SignalCtx nat | StdCtx nat

text \<open>
  The goroutines of the package, one constructor per point of control.
  The \<open>go func() { select { ... } }()\<close> of Timeout, Propagate and Promote is
  first at its entry, where select evaluates its channel operands, then
  blocked in the select with the operands' values, then (in the first case of
  the select) inside the call \<open>sig.Cancel()\<close>, which is two statements.
\<close>

datatype goroutine =
    TimeoutGo nat int
  | TimeoutSelect nat int "chan option"
  | PropagateGo nat Context
  | PropagateSelect nat "chan option" "chan option"
  | PromoteGo Context nat
  | PromoteSelect "chan option" nat "chan option"
  | CancelCall nat
  | CancelClose nat
  | StdCancelCall nat
  | Exited

record world =
  chans :: "bool list"          \<comment> \<open>heap of channels: \<open>True\<close> is closed\<close>
  sigs :: "Signal list"         \<comment> \<open>heap of Signal structs; a \<open>*Signal\<close> is an index\<close>
  ctxs :: "cancelCtx list"      \<comment> \<open>heap of standard-library contexts\<close>
  procs :: "goroutine list"     \<comment> \<open>the goroutines started so far\<close>
  clock :: int                  \<comment> \<open>the monotonic clock, in nanoseconds\<close>
  closes :: nat                 \<comment> \<open>how many \<open>close\<close> statements have executed\<close>
  fault :: "panic option"       \<comment> \<open>the panic that crashed the program, if any\<close>

definition world0 :: world where
  "world0 = \<lparr>chans = [], sigs = [], ctxs = [], procs = [], clock = 0,
             closes = 0, fault = None\<rparr>"

section \<open>Channels\<close>

definition make_chan :: "world \<Rightarrow> chan \<times> world" where
  "make_chan s = (length (chans s), s\<lparr>chans := chans s @ [False]\<rparr>)"

text \<open>\<open>close(c)\<close> panics on the nil channel and on a closed channel.\<close>

definition close_chan :: "world \<Rightarrow> chan option \<Rightarrow> panic + world" where
  "close_chan s co =
     (case co of
        None \<Rightarrow> Inl CloseNilChannel
      | Some c \<Rightarrow>
          if \<not> c < length (chans s) then Inl CloseNilChannel
          else if chans s ! c then Inl CloseClosedChannel
          else Inr (s\<lparr>chans := (chans s)[c := True], closes := closes s + 1\<rparr>))"

text \<open>Whether a receive \<open><-c\<close> can proceed.\<close>

definition ready :: "world \<Rightarrow> chan option \<Rightarrow> bool" where
  "ready s co = (case co of None \<Rightarrow> False | Some c \<Rightarrow> c < length (chans s) \<and> chans s ! c)"

section \<open>Signal\<close>

definition zero_Signal :: Signal where
  "zero_Signal = \<lparr>done_ch = None, make_once = False, close_once = False\<rparr>"

text \<open>\<open>&Signal{}\<close>: a fresh zero-value struct on the heap.\<close>

definition alloc_Signal :: "world \<Rightarrow> nat \<times> world" where
  "alloc_Signal s = (length (sigs s), s\<lparr>sigs := sigs s @ [zero_Signal]\<rparr>)"

text \<open>\<open>func (sig *Signal) init() { sig.make.Do(func() { sig.done = make(chan struct{}) }) }\<close>\<close>

definition init :: "world \<Rightarrow> nat \<Rightarrow> panic + world" where
  "init s sig =
     (if \<not> sig < length (sigs s) then Inl NilDereference
      else if make_once (sigs s ! sig) then Inr s
      else (case make_chan s of (c, s1) \<Rightarrow>
              Inr (s1\<lparr>sigs := (sigs s1)[sig := (sigs s1 ! sig)\<lparr>done_ch := Some c, make_once := True\<rparr>]\<rparr>)))"

text \<open>\<open>sig.close.Do(func() { close(sig.done) })\<close>, the second statement of Cancel.
  A panic inside \<open>Do\<close> still leaves the Once marked as run.\<close>

definition close_Do :: "world \<Rightarrow> nat \<Rightarrow> panic + world" where
  "close_Do s sig =
     (if \<not> sig < length (sigs s) then Inl NilDereference
      else if close_once (sigs s ! sig) then Inr s
      else close_chan (s\<lparr>sigs := (sigs s)[sig := (sigs s ! sig)\<lparr>close_once := True\<rparr>]\<rparr>)
             (done_ch (sigs s ! sig)))"

text \<open>\<open>func New() *Signal { sig := &Signal{}; sig.init(); return sig }\<close>\<close>

definition New :: "world \<Rightarrow> panic + (nat \<times> world)" where
  "New s =
     (case alloc_Signal s of (sig, s1) \<Rightarrow>
        (case init s1 sig of Inl p \<Rightarrow> Inl p | Inr s2 \<Rightarrow> Inr (sig, s2)))"

text \<open>\<open>func (sig *Signal) Done() <-chan struct{} { sig.init(); return sig.done }\<close>\<close>

definition Done :: "world \<Rightarrow> nat \<Rightarrow> panic + (chan option \<times> world)" where
  "Done s sig =
     (case init s sig of Inl p \<Rightarrow> Inl p | Inr s1 \<Rightarrow> Inr (done_ch (sigs s1 ! sig), s1))"

text \<open>\<open>func (sig *Signal) Cancel() { sig.init(); sig.close.Do(func() { close(sig.done) }) }\<close>\<close>

definition Cancel :: "world \<Rightarrow> nat \<Rightarrow> panic + world" where
  "Cancel s sig =
     (case init s sig of Inl p \<Rightarrow> Inl p | Inr s1 \<Rightarrow> close_Do s1 sig)"

section \<open>Time\<close>

text \<open>
  \<open>time.Duration\<close> is a signed 64-bit count of nanoseconds.  The standard
  library's \<open>time.Until(t)\<close> is \<open>t.Sub(time.Now())\<close>, and \<open>Sub\<close> returns the
  largest or the smallest Duration where the difference does not fit.
  Instants are nanoseconds on the scale of the world's clock.
\<close>

definition maxDuration :: int where
  "maxDuration = 2 ^ 63 - 1"

definition minDuration :: int where
  "minDuration = - (2 ^ 63)"

definition Sub :: "int \<Rightarrow> int \<Rightarrow> int" where
  "Sub t u =
     (if t - u > maxDuration then maxDuration
      else if t - u < minDuration then minDuration
      else t - u)"

definition Until :: "world \<Rightarrow> int \<Rightarrow> int" where
  "Until s t = Sub t (clock s)"

text \<open>
  \<open>time.After(d)\<close> gives a channel that becomes ready once the clock has
  reached the instant computed when the call is made: now for \<open>d \<le> 0\<close>,
  otherwise \<open>now + d\<close>, capped at the largest 64-bit instant.
\<close>

definition timer_when :: "world \<Rightarrow> int \<Rightarrow> int" where
  "timer_when s d =
     (if d \<le> 0 then clock s
      else if clock s + d > maxDuration then maxDuration
      else clock s + d)"

definition timer_ready :: "world \<Rightarrow> int \<Rightarrow> bool" where
  "timer_ready s w = (w \<le> clock s)"

section \<open>Composition operators\<close>

text \<open>The statement \<open>go f()\<close>: a new goroutine at the end of the list.\<close>

definition spawn :: "world \<Rightarrow> goroutine \<Rightarrow> world" where
  "spawn s g = s\<lparr>procs := procs s @ [g]\<rparr>"

text \<open>\<open>func (sig *Signal) Timeout(d time.Duration) *Signal { go func() {...}(); return sig }\<close>\<close>

definition Timeout :: "world \<Rightarrow> nat \<Rightarrow> int \<Rightarrow> nat \<times> world" where
  "Timeout s sig d = (sig, spawn s (TimeoutGo sig d))"

text \<open>\<open>func (sig *Signal) Deadline(t time.Time) *Signal { return sig.Timeout(time.Until(t)) }\<close>\<close>

definition Deadline :: "world \<Rightarrow> nat \<Rightarrow> int \<Rightarrow> nat \<times> world" where
  "Deadline s sig t = Timeout s sig (Until s t)"

text \<open>\<open>func (sig *Signal) Propagate(parent Context) *Signal { go func() {...}(); return sig }\<close>\<close>

definition Propagate :: "world \<Rightarrow> nat \<Rightarrow> Context \<Rightarrow> nat \<times> world" where
  "Propagate s sig parent = (sig, spawn s (PropagateGo sig parent))"

text \<open>\<open>context.WithCancel(context.Background())\<close> and the cancel function it returns.\<close>

definition WithCancel :: "world \<Rightarrow> nat \<times> world" where
  "WithCancel s =
     (case make_chan s of (c, s1) \<Rightarrow>
        (length (ctxs s1), s1\<lparr>ctxs := ctxs s1 @ [\<lparr>cdone = c, cerr = False\<rparr>]\<rparr>))"

definition std_cancel :: "world \<Rightarrow> nat \<Rightarrow> panic + world" where
  "std_cancel s k =
     (if \<not> k < length (ctxs s) then Inl NilDereference
      else if cerr (ctxs s ! k) then Inr s
      else close_chan (s\<lparr>ctxs := (ctxs s)[k := (ctxs s ! k)\<lparr>cerr := True\<rparr>]\<rparr>)
             (Some (cdone (ctxs s ! k))))"

text \<open>A function value of type \<open>func()\<close>: here always the cancel function of a context.\<close>

datatype func = CancelFunc nat

definition call :: "world \<Rightarrow> func \<Rightarrow> panic + world" where
  "call s f = (case f of CancelFunc k \<Rightarrow> std_cancel s k)"

text \<open>The method \<open>Done()\<close> called through the interface.\<close>

definition ctx_Done :: "world \<Rightarrow> Context \<Rightarrow> panic + (chan option \<times> world)" where
  "ctx_Done s ctx =
     (case ctx of
        SignalCtx sig \<Rightarrow> Done s sig
      | StdCtx k \<Rightarrow>
          if k < length (ctxs s) then Inr (Some (cdone (ctxs s ! k)), s)
          else Inl NilDereference)"

text \<open>
  \<open>func Promote(ctx Context) (context.Context, func()) {
      sig, cancel := context.WithCancel(context.Background())
      go func() {...}()
      return sig, cancel }\<close>
\<close>

definition Promote :: "world \<Rightarrow> Context \<Rightarrow> (Context \<times> func) \<times> world" where
  "Promote s ctx =
     (case WithCancel s of (k, s1) \<Rightarrow>
        ((StdCtx k, CancelFunc k), spawn s1 (PromoteGo ctx k)))"

section \<open>Goroutines\<close>

text \<open>
  One atomic step of a goroutine: the list of the outcomes it can have in
  this world, each a panic or the new world with the goroutine's next point of
  control.  The empty list is a blocked goroutine; a select with both cases
  ready has two outcomes.  A \<open>sync.Once.Do\<close> is one step, as callers of \<open>Do\<close>
  see it.  The operands of a select (\<open>time.After(d)\<close>, \<open>parent.Done()\<close>,
  \<open>sig.Done()\<close>) are evaluated in source order in the goroutine's first step;
  each of them reads the clock or runs a Once, so a step of another goroutine
  between two of them could as well come before or after.
\<close>

definition select2 :: "bool \<Rightarrow> goroutine \<Rightarrow> bool \<Rightarrow> goroutine \<Rightarrow> world \<Rightarrow> (panic + (world \<times> goroutine)) list" where
  "select2 r1 g1 r2 g2 s =
     (if r1 then [Inr (s, g1)] else []) @ (if r2 then [Inr (s, g2)] else [])"

fun gstep :: "world \<Rightarrow> goroutine \<Rightarrow> (panic + (world \<times> goroutine)) list" where
  "gstep s (TimeoutGo sig d) =
     (case Done s sig of
        Inl p \<Rightarrow> [Inl p]
      | Inr (c, s1) \<Rightarrow> [Inr (s1, TimeoutSelect sig (timer_when s d) c)])"
| "gstep s (TimeoutSelect sig w c) =
     select2 (timer_ready s w) (CancelCall sig) (ready s c) Exited s"
| "gstep s (PropagateGo sig parent) =
     (case ctx_Done s parent of
        Inl p \<Rightarrow> [Inl p]
      | Inr (pc, s1) \<Rightarrow>
          (case Done s1 sig of
             Inl p \<Rightarrow> [Inl p]
           | Inr (c, s2) \<Rightarrow> [Inr (s2, PropagateSelect sig pc c)]))"
| "gstep s (PropagateSelect sig pc c) =
     select2 (ready s pc) (CancelCall sig) (ready s c) Exited s"
| "gstep s (PromoteGo ctx k) =
     (case ctx_Done s ctx of
        Inl p \<Rightarrow> [Inl p]
      | Inr (pc, s1) \<Rightarrow>
          (case ctx_Done s1 (StdCtx k) of
             Inl p \<Rightarrow> [Inl p]
           | Inr (c, s2) \<Rightarrow> [Inr (s2, PromoteSelect pc k c)]))"
| "gstep s (PromoteSelect pc k c) =
     select2 (ready s pc) (StdCancelCall k) (ready s c) Exited s"
| "gstep s (CancelCall sig) =
     (case init s sig of
        Inl p \<Rightarrow> [Inl p]
      | Inr s1 \<Rightarrow> [Inr (s1, CancelClose sig)])"
| "gstep s (CancelClose sig) =
     (case close_Do s sig of
        Inl p \<Rightarrow> [Inl p]
      | Inr s1 \<Rightarrow> [Inr (s1, Exited)])"
| "gstep s (StdCancelCall k) =
     (case call s (CancelFunc k) of
        Inl p \<Rightarrow> [Inl p]
      | Inr s1 \<Rightarrow> [Inr (s1, Exited)])"
| "gstep s Exited = []"

section \<open>Programs as sequences of events\<close>

text \<open>
  What can happen next in a program that uses the package: the main goroutine
  calls one of the operations (a call is one step of the main goroutine), it
  starts \<open>go sig.Cancel()\<close>, the scheduler runs one step of goroutine \<open>i\<close> with
  outcome \<open>k\<close>, or the clock advances.  A panic crashes the program: the world
  is frozen with the fault recorded.
\<close>

datatype event =
    Call_New
  | Call_Zero
  | Call_Done nat
  | Call_Cancel nat
  | Call_Timeout nat int
  | Call_Deadline nat int
  | Call_Propagate nat Context
  | Call_Promote Context
  | Call_Release func
  | Go_Cancel nat
  | Sched nat nat
  | Tick nat

definition crash :: "world \<Rightarrow> panic \<Rightarrow> world" where
  "crash s p = s\<lparr>fault := Some p\<rparr>"

definition settle :: "world \<Rightarrow> panic + world \<Rightarrow> world" where
  "settle s r = (case r of Inl p \<Rightarrow> crash s p | Inr s1 \<Rightarrow> s1)"

definition sched :: "world \<Rightarrow> nat \<Rightarrow> nat \<Rightarrow> world" where
  "sched s i k =
     (if \<not> i < length (procs s) then s
      else if \<not> k < length (gstep s (procs s ! i)) then s
      else (case gstep s (procs s ! i) ! k of
              Inl p \<Rightarrow> crash s p
            | Inr (s1, g) \<Rightarrow> s1\<lparr>procs := (procs s1)[i := g]\<rparr>))"

fun exec1 :: "world \<Rightarrow> event \<Rightarrow> world" where
  "exec1 s Call_New = settle s (map_sum id snd (New s))"
| "exec1 s Call_Zero = snd (alloc_Signal s)"
| "exec1 s (Call_Done sig) = settle s (map_sum id snd (Done s sig))"
| "exec1 s (Call_Cancel sig) = settle s (Cancel s sig)"
| "exec1 s (Call_Timeout sig d) = snd (Timeout s sig d)"
| "exec1 s (Call_Deadline sig t) = snd (Deadline s sig t)"
| "exec1 s (Call_Propagate sig parent) = snd (Propagate s sig parent)"
| "exec1 s (Call_Promote ctx) = snd (Promote s ctx)"
| "exec1 s (Call_Release f) = settle s (call s f)"
| "exec1 s (Go_Cancel sig) = spawn s (CancelCall sig)"
| "exec1 s (Sched i k) = sched s i k"
| "exec1 s (Tick d) = s\<lparr>clock := clock s + int d\<rparr>"

definition exec :: "world \<Rightarrow> event \<Rightarrow> world" where
  "exec s e = (if fault s = None then exec1 s e else s)"

fun run :: "world \<Rightarrow> event list \<Rightarrow> world" where
  "run s [] = s"
| "run s (e # es) = run (exec s e) es"

section \<open>Observations\<close>

text \<open>The two states of a cancellation source: its channel exists and is closed, or not.\<close>

definition terminated :: "world \<Rightarrow> nat \<Rightarrow> bool" where
  "terminated s sig = (sig < length (sigs s) \<and> ready s (done_ch (sigs s ! sig)))"

definition ctx_terminated :: "world \<Rightarrow> Context \<Rightarrow> bool" where
  "ctx_terminated s ctx =
     (case ctx of
        SignalCtx sig \<Rightarrow> terminated s sig
      | StdCtx k \<Rightarrow> k < length (ctxs s) \<and> ready s (Some (cdone (ctxs s ! k))))"

text \<open>
  What an observer sees who calls \<open>Done()\<close> and polls the channel with
  \<open>select { case <-ch: ... default: ... }\<close>: \<open>Some True\<close> for terminated,
  \<open>Some False\<close> for pending, \<open>None\<close> when the call panics.
\<close>

definition observe :: "world \<Rightarrow> nat \<Rightarrow> bool option" where
  "observe s sig =
     (case Done s sig of Inl p \<Rightarrow> None | Inr (c, s1) \<Rightarrow> Some (ready s1 c))"

section \<open>Invariants\<close>

text \<open>
  What never goes back as a program runs: the clock, heaps only grow, a closed channel
  stays closed, a Once that has run stays run, and the channel of an
  initialised Signal or of a context is never replaced.
\<close>

definition evolves :: "world \<Rightarrow> world \<Rightarrow> bool" where
  "evolves s t =
     (clock s \<le> clock t \<and>
      length (chans s) \<le> length (chans t) \<and>
      length (sigs s) \<le> length (sigs t) \<and>
      length (ctxs s) \<le> length (ctxs t) \<and>
      (\<forall>c < length (chans s). chans s ! c \<longrightarrow> chans t ! c) \<and>
      (\<forall>i < length (sigs s).
          (make_once (sigs s ! i) \<longrightarrow>
             make_once (sigs t ! i) \<and> done_ch (sigs t ! i) = done_ch (sigs s ! i)) \<and>
          (close_once (sigs s ! i) \<longrightarrow> close_once (sigs t ! i))) \<and>
      (\<forall>k < length (ctxs s).
          cdone (ctxs t ! k) = cdone (ctxs s ! k) \<and> (cerr (ctxs s ! k) \<longrightarrow> cerr (ctxs t ! k))))"

text \<open>
  The state of one Signal as the methods of the package leave it: the \<open>make\<close>
  Once has run exactly when the channel exists, and the \<open>close\<close> Once has run
  exactly when that channel is closed.
\<close>

definition sig_ok :: "world \<Rightarrow> nat \<Rightarrow> bool" where
  "sig_ok s sig =
     (sig < length (sigs s) \<and>
      (case done_ch (sigs s ! sig) of
         None \<Rightarrow> \<not> make_once (sigs s ! sig) \<and> \<not> close_once (sigs s ! sig)
       | Some c \<Rightarrow> make_once (sigs s ! sig) \<and> c < length (chans s) \<and>
                   chans s ! c = close_once (sigs s ! sig)))"

text \<open>
  Well-formed worlds: every Signal and context is in a state its methods leave
  it in, no two of them share a channel, and every goroutine holds pointers
  that exist.  The worlds a Go program can reach are of this kind: the fields
  of a Signal are private to the package and channels are only made fresh.
\<close>

definition ctx_valid :: "world \<Rightarrow> Context \<Rightarrow> bool" where
  "ctx_valid s ctx =
     (case ctx of SignalCtx sig \<Rightarrow> sig < length (sigs s) | StdCtx k \<Rightarrow> k < length (ctxs s))"

fun gor_ok :: "world \<Rightarrow> goroutine \<Rightarrow> bool" where
  "gor_ok s (TimeoutGo sig d) = (sig < length (sigs s))"
| "gor_ok s (TimeoutSelect sig w c) = (sig < length (sigs s))"
| "gor_ok s (PropagateGo sig parent) = (sig < length (sigs s) \<and> ctx_valid s parent)"
| "gor_ok s (PropagateSelect sig pc c) = (sig < length (sigs s))"
| "gor_ok s (PromoteGo ctx k) = (ctx_valid s ctx \<and> k < length (ctxs s))"
| "gor_ok s (PromoteSelect pc k c) = (k < length (ctxs s))"
| "gor_ok s (CancelCall sig) = (sig < length (sigs s))"
| "gor_ok s (CancelClose sig) = (sig < length (sigs s) \<and> make_once (sigs s ! sig))"
| "gor_ok s (StdCancelCall k) = (k < length (ctxs s))"
| "gor_ok s Exited = True"

definition ctx_ok :: "world \<Rightarrow> nat \<Rightarrow> bool" where
  "ctx_ok s k =
     (k < length (ctxs s) \<and> cdone (ctxs s ! k) < length (chans s) \<and>
      chans s ! cdone (ctxs s ! k) = cerr (ctxs s ! k))"

definition separate :: "world \<Rightarrow> bool" where
  "separate s =
     ((\<forall>i < length (sigs s). \<forall>j < length (sigs s).
          i \<noteq> j \<longrightarrow> done_ch (sigs s ! i) \<noteq> None \<longrightarrow> done_ch (sigs s ! i) \<noteq> done_ch (sigs s ! j)) \<and>
      (\<forall>i < length (sigs s). \<forall>k < length (ctxs s).
          done_ch (sigs s ! i) \<noteq> Some (cdone (ctxs s ! k))) \<and>
      (\<forall>k < length (ctxs s). \<forall>l < length (ctxs s).
          k \<noteq> l \<longrightarrow> cdone (ctxs s ! k) \<noteq> cdone (ctxs s ! l)))"

definition world_ok :: "world \<Rightarrow> bool" where
  "world_ok s =
     ((\<forall>i < length (sigs s). sig_ok s i) \<and>
      (\<forall>k < length (ctxs s). ctx_ok s k) \<and>
      separate s \<and>
      (\<forall>n < length (procs s). gor_ok s (procs s ! n)))"

text \<open>Events whose pointers exist: in Go a pointer the program holds is one it was given.\<close>

fun valid_event :: "world \<Rightarrow> event \<Rightarrow> bool" where
  "valid_event s (Call_Done sig) = (sig < length (sigs s))"
| "valid_event s (Call_Cancel sig) = (sig < length (sigs s))"
| "valid_event s (Call_Timeout sig d) = (sig < length (sigs s))"
| "valid_event s (Call_Deadline sig t) = (sig < length (sigs s))"
| "valid_event s (Call_Propagate sig parent) = (sig < length (sigs s) \<and> ctx_valid s parent)"
| "valid_event s (Call_Promote ctx) = ctx_valid s ctx"
| "valid_event s (Call_Release (CancelFunc k)) = (k < length (ctxs s))"
| "valid_event s (Go_Cancel sig) = (sig < length (sigs s))"
| "valid_event s e = True"

fun valid_run :: "world \<Rightarrow> event list \<Rightarrow> bool" where
  "valid_run s [] = True"
| "valid_run s (e # es) = (valid_event s e \<and> valid_run (exec s e) es)"

section \<open>Repeated and concurrent cancellation\<close>

text \<open>\<open>sig.Cancel()\<close> called \<open>n\<close> times in a row by one goroutine.\<close>

fun Cancel_times :: "nat \<Rightarrow> world \<Rightarrow> nat \<Rightarrow> panic + world" where
  "Cancel_times 0 s sig = Inr s"
| "Cancel_times (Suc n) s sig =
     (case Cancel s sig of Inl p \<Rightarrow> Inl p | Inr s1 \<Rightarrow> Cancel_times n s1 sig)"

text \<open>Scheduling events that run a goroutine started at position \<open>n\<close> or later.\<close>

fun runs_from :: "nat \<Rightarrow> event \<Rightarrow> bool" where
  "runs_from n (Sched i k) = (n \<le> i)"
| "runs_from n e = False"

text \<open>The points of control of a goroutine that runs \<open>sig.Cancel()\<close> and returns.\<close>

definition in_Cancel :: "nat \<Rightarrow> goroutine \<Rightarrow> bool" where
  "in_Cancel sig g = (g = CancelCall sig \<or> g = CancelClose sig \<or> g = Exited)"

text \<open>
  The worlds that \<open>N\<close> goroutines running \<open>sig.Cancel()\<close> over the world \<open>s\<close> pass
  through: apart from the goroutines themselves the world is \<open>s\<close> while none has
  started, the result of \<open>init\<close> while none has finished, or the result of one
  \<open>Cancel\<close>.
\<close>

definition cancelling :: "world \<Rightarrow> nat \<Rightarrow> nat \<Rightarrow> world \<Rightarrow> bool" where
  "cancelling s sig N st =
     (length (procs st) = length (procs s) + N \<and>
      take (length (procs s)) (procs st) = procs s \<and>
      list_all (in_Cancel sig) (drop (length (procs s)) (procs st)) \<and>
      fault st = None \<and>
      (st\<lparr>procs := procs s\<rparr> = s \<and>
         list_all (\<lambda>g. g = CancelCall sig) (drop (length (procs s)) (procs st)) \<or>
       Inr (st\<lparr>procs := procs s\<rparr>) = init s sig \<and>
         list_all (\<lambda>g. g \<noteq> Exited) (drop (length (procs s)) (procs st)) \<or>
       Inr (st\<lparr>procs := procs s\<rparr>) = Cancel s sig))"

text \<open>
  \<open>N\<close> times \<open>go sig.Cancel()\<close>, then the scheduler's choices \<open>es\<close>.
\<close>

definition Cancel_concurrently :: "nat \<Rightarrow> world \<Rightarrow> nat \<Rightarrow> event list \<Rightarrow> world" where
  "Cancel_concurrently N s sig es = run (run s (replicate N (Go_Cancel sig))) es"

section \<open>Goroutines of the composition operators\<close>

text \<open>
  What a goroutine of Timeout, Propagate or Promote waits for in the first case
  of its select: a timer that has elapsed already, or the channel of a source
  context.
\<close>

datatype trigger = Elapsed | Source Context

text \<open>The channel field of a context, and whether that field has been initialised.\<close>

definition chan_of :: "world \<Rightarrow> Context \<Rightarrow> chan option" where
  "chan_of s ctx =
     (case ctx of SignalCtx p \<Rightarrow> done_ch (sigs s ! p) | StdCtx k \<Rightarrow> Some (cdone (ctxs s ! k)))"

definition made :: "world \<Rightarrow> Context \<Rightarrow> bool" where
  "made s ctx = (case ctx of SignalCtx p \<Rightarrow> make_once (sigs s ! p) | StdCtx k \<Rightarrow> True)"

text \<open>The channel \<open>pc\<close> is what \<open>Done()\<close> of the trigger's source returned.\<close>

definition watches :: "world \<Rightarrow> trigger \<Rightarrow> chan option \<Rightarrow> bool" where
  "watches s tr pc =
     (case tr of Elapsed \<Rightarrow> False | Source src \<Rightarrow> made s src \<and> pc = chan_of s src)"

definition trigger_valid :: "world \<Rightarrow> trigger \<Rightarrow> bool" where
  "trigger_valid s tr = (case tr of Elapsed \<Rightarrow> True | Source src \<Rightarrow> ctx_valid s src)"

definition trigger_ready :: "world \<Rightarrow> trigger \<Rightarrow> bool" where
  "trigger_ready s tr = (case tr of Elapsed \<Rightarrow> True | Source src \<Rightarrow> ctx_terminated s src)"

text \<open>
  The goroutine \<open>g\<close> is one started for the target \<open>tgt\<close> on the trigger \<open>tr\<close>, at
  some point of its work: the operands its select holds are the channels of
  the trigger's source and of the target, and once it has returned the target
  is terminated.
\<close>

fun serves :: "world \<Rightarrow> trigger \<Rightarrow> Context \<Rightarrow> goroutine \<Rightarrow> bool" where
  "serves s tr tgt (TimeoutGo sig d) = (tr = Elapsed \<and> tgt = SignalCtx sig \<and> d \<le> 0)"
| "serves s tr tgt (TimeoutSelect sig w c) =
     (tr = Elapsed \<and> tgt = SignalCtx sig \<and> timer_ready s w \<and>
      make_once (sigs s ! sig) \<and> c = done_ch (sigs s ! sig))"
| "serves s tr tgt (PropagateGo sig parent) = (tr = Source parent \<and> tgt = SignalCtx sig)"
| "serves s tr tgt (PropagateSelect sig pc c) =
     (tgt = SignalCtx sig \<and> watches s tr pc \<and>
      make_once (sigs s ! sig) \<and> c = done_ch (sigs s ! sig))"
| "serves s tr tgt (PromoteGo ctx k) = (tr = Source ctx \<and> tgt = StdCtx k)"
| "serves s tr tgt (PromoteSelect pc k c) =
     (tgt = StdCtx k \<and> watches s tr pc \<and> c = Some (cdone (ctxs s ! k)))"
| "serves s tr tgt (CancelCall sig) = (tgt = SignalCtx sig)"
| "serves s tr tgt (CancelClose sig) = (tgt = SignalCtx sig)"
| "serves s tr tgt (StdCancelCall k) = (tgt = StdCtx k)"
| "serves s tr tgt Exited = ctx_terminated s tgt"

text \<open>An upper bound on the steps a goroutine has left.\<close>

fun rank :: "goroutine \<Rightarrow> nat" where
  "rank (TimeoutGo sig d) = 4"
| "rank (TimeoutSelect sig w c) = 3"
| "rank (PropagateGo sig parent) = 4"
| "rank (PropagateSelect sig pc c) = 3"
| "rank (PromoteGo ctx k) = 4"
| "rank (PromoteSelect pc k c) = 3"
| "rank (CancelCall sig) = 2"
| "rank (CancelClose sig) = 1"
| "rank (StdCancelCall k) = 1"
| "rank Exited = 0"

text \<open>
  Given four steps by the scheduler, taking the first ready case of the select,
  and with no tick of the clock in between, goroutine \<open>n\<close> has returned without
  a panic and the target is terminated.
\<close>

definition settles :: "world \<Rightarrow> nat \<Rightarrow> Context \<Rightarrow> bool" where
  "settles s n tgt =
     (fault (run s (replicate 4 (Sched n 0))) = None \<and>
      clock (run s (replicate 4 (Sched n 0))) = clock s \<and>
      procs (run s (replicate 4 (Sched n 0))) ! n = Exited \<and>
      ctx_terminated (run s (replicate 4 (Sched n 0))) tgt)"

text \<open>
  Goroutine \<open>n\<close> is on its way to cancel the target and nothing holds it up: if
  it has returned, the target is terminated; if it has not, it is not blocked;
  and four steps without a tick of the clock are enough for it.
\<close>

definition fires :: "world \<Rightarrow> nat \<Rightarrow> Context \<Rightarrow> bool" where
  "fires s n tgt =
     ((procs s ! n = Exited \<longrightarrow> ctx_terminated s tgt) \<and>
      (procs s ! n \<noteq> Exited \<longrightarrow> gstep s (procs s ! n) \<noteq> []) \<and>
      settles s n tgt)"

text \<open>The Signal or context a goroutine may cancel.\<close>

fun target :: "goroutine \<Rightarrow> Context option" where
  "target (TimeoutGo sig d) = Some (SignalCtx sig)"
| "target (TimeoutSelect sig w c) = Some (SignalCtx sig)"
| "target (PropagateGo sig parent) = Some (SignalCtx sig)"
| "target (PropagateSelect sig pc c) = Some (SignalCtx sig)"
| "target (PromoteGo ctx k) = Some (StdCtx k)"
| "target (PromoteSelect pc k c) = Some (StdCtx k)"
| "target (CancelCall sig) = Some (SignalCtx sig)"
| "target (CancelClose sig) = Some (SignalCtx sig)"
| "target (StdCancelCall k) = Some (StdCtx k)"
| "target Exited = None"



text \<open>The main goroutine invokes a function value, such as the release function of Promote.\<close>

definition release :: "world \<Rightarrow> func \<Rightarrow> world" where
  "release s f = exec s (Call_Release f)"

section \<open>What may cancel a context\<close>

text \<open>
  The events by which the program itself cancels the context \<open>P\<close> or starts a
  goroutine that may: calls of \<open>Cancel\<close>, \<open>Timeout\<close>, \<open>Deadline\<close> and \<open>Propagate\<close> on
  \<open>P\<close>, \<open>go P.Cancel()\<close>, and the cancel function of \<open>P\<close>.
\<close>

fun aims_at :: "Context \<Rightarrow> event \<Rightarrow> bool" where
  "aims_at P (Call_Cancel sig) = (P = SignalCtx sig)"
| "aims_at P (Call_Timeout sig d) = (P = SignalCtx sig)"
| "aims_at P (Call_Deadline sig t) = (P = SignalCtx sig)"
| "aims_at P (Call_Propagate sig parent) = (P = SignalCtx sig)"
| "aims_at P (Go_Cancel sig) = (P = SignalCtx sig)"
| "aims_at P (Call_Release f) = (case f of CancelFunc k \<Rightarrow> P = StdCtx k)"
| "aims_at P e = False"


text \<open>
  The goroutine of \<open>Promote(S)\<close> for the context \<open>k\<close>, at some point of its work:
  it is inside \<open>cancel()\<close> only when the source \<open>S\<close> is terminated.
\<close>

fun mirroring :: "world \<Rightarrow> Context \<Rightarrow> nat \<Rightarrow> goroutine \<Rightarrow> bool" where
  "mirroring s S k (PromoteGo ctx k') = (ctx = S \<and> k' = k)"
| "mirroring s S k (PromoteSelect pc k' c) = (k' = k \<and> watches s (Source S) pc)"
| "mirroring s S k (StdCancelCall k') = (k' = k \<and> ctx_terminated s S)"
| "mirroring s S k Exited = True"
| "mirroring s S k g = False"

section \<open>Monotone evolution\<close>

lemma evolves_refl: "evolves s s"
  by (simp add: evolves_def)

lemma evolves_trans: "evolves s t \<Longrightarrow> evolves t u \<Longrightarrow> evolves s u"
  unfolding evolves_def by (auto simp: le_trans less_le_trans)

lemma evolves_init: "init s sig = Inr t \<Longrightarrow> evolves s t"
  by (auto simp: init_def make_chan_def evolves_def nth_append nth_list_update split: if_splits)

lemma evolves_close_chan: "close_chan s co = Inr t \<Longrightarrow> evolves s t"
  by (auto simp: close_chan_def evolves_def nth_list_update split: option.splits if_splits)

lemma evolves_close_Do: "close_Do s sig = Inr t \<Longrightarrow> evolves s t"
  by (auto simp: close_Do_def close_chan_def evolves_def nth_list_update split: option.splits if_splits)

lemma evolves_Cancel: "Cancel s sig = Inr t \<Longrightarrow> evolves s t"
  by (auto simp: Cancel_def split: sum.splits intro: evolves_trans evolves_init evolves_close_Do)

lemma evolves_Done: "Done s sig = Inr (c, t) \<Longrightarrow> evolves s t"
  by (auto simp: Done_def split: sum.splits intro: evolves_init)

lemma evolves_ctx_Done: "ctx_Done s ctx = Inr (c, t) \<Longrightarrow> evolves s t"
  by (auto simp: ctx_Done_def evolves_refl split: Context.splits if_splits intro: evolves_Done)

lemma evolves_std_cancel: "std_cancel s k = Inr t \<Longrightarrow> evolves s t"
  by (auto simp: std_cancel_def close_chan_def evolves_def nth_list_update split: if_splits)

lemma evolves_New: "New s = Inr (sig, t) \<Longrightarrow> evolves s t"
  by (auto simp: New_def alloc_Signal_def init_def make_chan_def evolves_def nth_append nth_list_update zero_Signal_def
      split: sum.splits if_splits)

lemma evolves_spawn: "evolves s (spawn s g)"
  by (simp add: spawn_def evolves_def)

lemma evolves_WithCancel: "evolves s (snd (WithCancel s))"
  by (auto simp: WithCancel_def make_chan_def evolves_def nth_append)

lemma evolves_procs: "evolves s t \<Longrightarrow> evolves s (t\<lparr>procs := ps\<rparr>)"
  by (simp add: evolves_def)

lemma evolves_clock: "clock s \<le> w \<Longrightarrow> evolves s (s\<lparr>clock := w\<rparr>)"
  by (simp add: evolves_def)

lemma evolves_crash: "evolves s (crash s p)"
  by (simp add: evolves_def crash_def)

lemma gstepE [consumes 1, case_names TimeoutGo TimerFired TimeoutDone PropagateGo ParentDone
    PropagateDone PromoteGo SourceDone PromoteDone CancelCall CancelClose StdCancelCall]:
  assumes "Inr (t, g') \<in> set (gstep s g)"
  obtains
    sig d c where "g = TimeoutGo sig d" "Done s sig = Inr (c, t)"
      "g' = TimeoutSelect sig (timer_when s d) c"
  | sig w c where "g = TimeoutSelect sig w c" "t = s" "timer_ready s w" "g' = CancelCall sig"
  | sig w c where "g = TimeoutSelect sig w c" "t = s" "ready s c" "g' = Exited"
  | sig parent pc s1 c where "g = PropagateGo sig parent" "ctx_Done s parent = Inr (pc, s1)"
      "Done s1 sig = Inr (c, t)" "g' = PropagateSelect sig pc c"
  | sig pc c where "g = PropagateSelect sig pc c" "t = s" "ready s pc" "g' = CancelCall sig"
  | sig pc c where "g = PropagateSelect sig pc c" "t = s" "ready s c" "g' = Exited"
  | ctx k pc s1 c where "g = PromoteGo ctx k" "ctx_Done s ctx = Inr (pc, s1)"
      "ctx_Done s1 (StdCtx k) = Inr (c, t)" "g' = PromoteSelect pc k c"
  | pc k c where "g = PromoteSelect pc k c" "t = s" "ready s pc" "g' = StdCancelCall k"
  | pc k c where "g = PromoteSelect pc k c" "t = s" "ready s c" "g' = Exited"
  | sig where "g = CancelCall sig" "init s sig = Inr t" "g' = CancelClose sig"
  | sig where "g = CancelClose sig" "close_Do s sig = Inr t" "g' = Exited"
  | k where "g = StdCancelCall k" "std_cancel s k = Inr t" "g' = Exited"
proof (cases g)
  case (TimeoutGo sig d)
  with assms that(1) show ?thesis
    by (cases "Done s sig") auto
next
  case (TimeoutSelect sig w c)
  with assms that(2,3) show ?thesis
    by (auto simp: select2_def split: if_splits)
next
  case (PropagateGo sig parent)
  show ?thesis
  proof (cases "ctx_Done s parent")
    case (Inl p)
    with assms PropagateGo show ?thesis by simp
  next
    case (Inr r)
    obtain pc s1 where r: "r = (pc, s1)" by (cases r)
    with assms PropagateGo Inr that(4) show ?thesis
      by (cases "Done s1 sig") auto
  qed
next
  case (PropagateSelect sig pc c)
  with assms that(5,6) show ?thesis
    by (auto simp: select2_def split: if_splits)
next
  case (PromoteGo ctx k)
  show ?thesis
  proof (cases "ctx_Done s ctx")
    case (Inl p)
    with assms PromoteGo show ?thesis by simp
  next
    case (Inr r)
    obtain pc s1 where r: "r = (pc, s1)" by (cases r)
    with assms PromoteGo Inr that(7) show ?thesis
      by (cases "ctx_Done s1 (StdCtx k)") auto
  qed
next
  case (PromoteSelect pc k c)
  with assms that(8,9) show ?thesis
    by (auto simp: select2_def split: if_splits)
next
  case (CancelCall sig)
  with assms that(10) show ?thesis
    by (cases "init s sig") auto
next
  case (CancelClose sig)
  with assms that(11) show ?thesis
    by (cases "close_Do s sig") auto
next
  case (StdCancelCall k)
  with assms that(12) show ?thesis
    by (cases "std_cancel s k") (auto simp: call_def)
next
  case Exited
  with assms show ?thesis by simp
qed

lemma evolves_gstep: "Inr (t, g') \<in> set (gstep s g) \<Longrightarrow> evolves s t"
  by (erule gstepE)
     (auto simp: evolves_refl
           intro: evolves_Done evolves_ctx_Done evolves_init evolves_close_Do evolves_std_cancel
                  evolves_trans[OF evolves_ctx_Done evolves_Done]
                  evolves_trans[OF evolves_ctx_Done evolves_ctx_Done])

lemma evolves_sched: "evolves s (sched s i k)"
proof -
  { fix t g assume "k < length (gstep s (procs s ! i))" "gstep s (procs s ! i) ! k = Inr (t, g)"
    then have "Inr (t, g) \<in> set (gstep s (procs s ! i))" by (metis nth_mem)
    then have "evolves s t" by (rule evolves_gstep) }
  then show ?thesis
    by (auto simp: sched_def evolves_refl evolves_crash split: sum.splits intro: evolves_procs)
qed

lemma map_sum_snd_Inr: "map_sum id snd r = Inr x \<longleftrightarrow> (\<exists>a. r = Inr (a, x))"
  by (cases r) auto

lemma map_sum_snd_Inl: "map_sum id snd r = Inl p \<longleftrightarrow> r = Inl p"
  by (cases r) auto

lemma evolves_alloc: "evolves s (snd (alloc_Signal s))"
  by (auto simp: alloc_Signal_def evolves_def nth_append)

lemma evolves_exec1: "evolves s (exec1 s e)"
proof (cases e)
  case (Call_Promote ctx)
  then show ?thesis
    using evolves_WithCancel[of s]
    by (auto simp: Promote_def spawn_def split: prod.splits intro: evolves_procs)
qed (auto simp: settle_def evolves_crash evolves_refl evolves_sched evolves_spawn call_def
        Timeout_def Deadline_def Propagate_def evolves_alloc map_sum_snd_Inr
        evolves_clock
        split: sum.splits func.splits
        intro: evolves_New evolves_Done evolves_Cancel evolves_std_cancel)

lemma evolves_exec: "evolves s (exec s e)"
  by (simp add: exec_def evolves_exec1 evolves_refl)

lemma evolves_run: "evolves s (run s es)"
  by (induction es arbitrary: s) (auto intro: evolves_refl evolves_trans evolves_exec)

section \<open>The methods on a well-formed Signal\<close>

lemma init_made: "sig < length (sigs s) \<Longrightarrow> make_once (sigs s ! sig) \<Longrightarrow> init s sig = Inr s"
  by (simp add: init_def)

lemma init_fresh:
  "sig < length (sigs s) \<Longrightarrow> \<not> make_once (sigs s ! sig) \<Longrightarrow>
   init s sig = Inr (s\<lparr>chans := chans s @ [False],
                       sigs := (sigs s)[sig := (sigs s ! sig)\<lparr>done_ch := Some (length (chans s)), make_once := True\<rparr>]\<rparr>)"
  by (simp add: init_def make_chan_def)

lemma Done_made:
  "sig < length (sigs s) \<Longrightarrow> make_once (sigs s ! sig) \<Longrightarrow> Done s sig = Inr (done_ch (sigs s ! sig), s)"
  by (simp add: Done_def init_made)

lemma Done_ok:
  assumes "sig_ok s sig"
  shows "\<exists>c s1. Done s sig = Inr (Some c, s1) \<and> sig_ok s1 sig \<and> make_once (sigs s1 ! sig) \<and>
           done_ch (sigs s1 ! sig) = Some c \<and> c < length (chans s1) \<and>
           (terminated s sig \<longrightarrow> chans s1 ! c)"
proof (cases "make_once (sigs s ! sig)")
  case True
  with assms show ?thesis
    by (auto simp: Done_made sig_ok_def terminated_def ready_def split: option.splits)
next
  case False
  with assms show ?thesis
    by (auto simp: Done_def init_fresh sig_ok_def terminated_def ready_def nth_append split: option.splits)
qed

lemma made_run:
  assumes "sig < length (sigs s)" "make_once (sigs s ! sig)"
  shows "sig < length (sigs (run s es)) \<and> make_once (sigs (run s es) ! sig) \<and>
         done_ch (sigs (run s es) ! sig) = done_ch (sigs s ! sig)"
  using evolves_run[of s es] assms unfolding evolves_def by auto

lemma closed_run:
  assumes "c < length (chans s)" "chans s ! c"
  shows "ready (run s es) (Some c)"
  using evolves_run[of s es] assms unfolding evolves_def ready_def by auto

section \<open>Well-formed worlds are preserved\<close>

lemma close_Do_closed:
  "sig < length (sigs s) \<Longrightarrow> close_once (sigs s ! sig) \<Longrightarrow> close_Do s sig = Inr s"
  by (simp add: close_Do_def)

lemma close_Do_open:
  "sig_ok s sig \<Longrightarrow> done_ch (sigs s ! sig) = Some c \<Longrightarrow> \<not> close_once (sigs s ! sig) \<Longrightarrow>
   close_Do s sig = Inr (s\<lparr>sigs := (sigs s)[sig := (sigs s ! sig)\<lparr>close_once := True\<rparr>],
                          chans := (chans s)[c := True], closes := closes s + 1\<rparr>)"
  by (auto simp: close_Do_def close_chan_def sig_ok_def)

lemma ctx_valid_evolves: "evolves s t \<Longrightarrow> ctx_valid s ctx \<Longrightarrow> ctx_valid t ctx"
  by (auto simp: evolves_def ctx_valid_def split: Context.splits)

lemma gor_ok_evolves: "evolves s t \<Longrightarrow> gor_ok s g \<Longrightarrow> gor_ok t g"
  by (cases g) (auto simp: ctx_valid_evolves, auto simp: evolves_def)

lemma world_okI:
  assumes "\<And>i. i < length (sigs s) \<Longrightarrow> sig_ok s i"
    and "\<And>k. k < length (ctxs s) \<Longrightarrow> ctx_ok s k"
    and "separate s"
    and "\<And>n. n < length (procs s) \<Longrightarrow> gor_ok s (procs s ! n)"
  shows "world_ok s"
  using assms by (simp add: world_ok_def)

lemma world_okD:
  assumes "world_ok s"
  shows "\<And>i. i < length (sigs s) \<Longrightarrow> sig_ok s i"
    and "\<And>k. k < length (ctxs s) \<Longrightarrow> ctx_ok s k"
    and "separate s"
    and "\<And>n. n < length (procs s) \<Longrightarrow> gor_ok s (procs s ! n)"
  using assms by (simp_all add: world_ok_def)

lemma separateD:
  assumes "separate s"
  shows "\<And>i j c. i < length (sigs s) \<Longrightarrow> j < length (sigs s) \<Longrightarrow> i \<noteq> j \<Longrightarrow>
           done_ch (sigs s ! j) = Some c \<Longrightarrow> done_ch (sigs s ! i) \<noteq> Some c"
    and "\<And>i k. i < length (sigs s) \<Longrightarrow> k < length (ctxs s) \<Longrightarrow>
           done_ch (sigs s ! i) \<noteq> Some (cdone (ctxs s ! k))"
    and "\<And>k l. k < length (ctxs s) \<Longrightarrow> l < length (ctxs s) \<Longrightarrow> k \<noteq> l \<Longrightarrow>
           cdone (ctxs s ! k) \<noteq> cdone (ctxs s ! l)"
proof -
  from assms have a: "\<forall>i < length (sigs s). \<forall>j < length (sigs s).
      i \<noteq> j \<longrightarrow> done_ch (sigs s ! i) \<noteq> None \<longrightarrow> done_ch (sigs s ! i) \<noteq> done_ch (sigs s ! j)"
    and b: "\<forall>i < length (sigs s). \<forall>k < length (ctxs s).
      done_ch (sigs s ! i) \<noteq> Some (cdone (ctxs s ! k))"
    and c: "\<forall>k < length (ctxs s). \<forall>l < length (ctxs s).
      k \<noteq> l \<longrightarrow> cdone (ctxs s ! k) \<noteq> cdone (ctxs s ! l)"
    by (simp_all add: separate_def)
  show "done_ch (sigs s ! i) \<noteq> Some c"
    if "i < length (sigs s)" "j < length (sigs s)" "i \<noteq> j" "done_ch (sigs s ! j) = Some c" for i j c
  proof
    assume e: "done_ch (sigs s ! i) = Some c"
    from a that(1,2,3) have "done_ch (sigs s ! i) \<noteq> None \<longrightarrow> done_ch (sigs s ! i) \<noteq> done_ch (sigs s ! j)"
      by blast
    with e that(4) show False by simp
  qed
  show "done_ch (sigs s ! i) \<noteq> Some (cdone (ctxs s ! k))"
    if "i < length (sigs s)" "k < length (ctxs s)" for i k
    using b that by blast
  show "cdone (ctxs s ! k) \<noteq> cdone (ctxs s ! l)"
    if "k < length (ctxs s)" "l < length (ctxs s)" "k \<noteq> l" for k l
    using c that by blast
qed

lemma fresh_chan:
  assumes "world_ok s"
  shows "\<And>i. i < length (sigs s) \<Longrightarrow> done_ch (sigs s ! i) \<noteq> Some (length (chans s))"
    and "\<And>i. i < length (sigs s) \<Longrightarrow> Some (length (chans s)) \<noteq> done_ch (sigs s ! i)"
    and "\<And>k. k < length (ctxs s) \<Longrightarrow> cdone (ctxs s ! k) \<noteq> length (chans s)"
    and "\<And>k. k < length (ctxs s) \<Longrightarrow> length (chans s) \<noteq> cdone (ctxs s ! k)"
proof -
  show a: "done_ch (sigs s ! i) \<noteq> Some (length (chans s))" if "i < length (sigs s)" for i
    using world_okD(1)[OF assms that] by (auto simp: sig_ok_def split: option.splits)
  show "Some (length (chans s)) \<noteq> done_ch (sigs s ! i)" if "i < length (sigs s)" for i
    using a[OF that] by metis
  show b: "cdone (ctxs s ! k) \<noteq> length (chans s)" if "k < length (ctxs s)" for k
    using world_okD(2)[OF assms that] by (auto simp: ctx_ok_def)
  show "length (chans s) \<noteq> cdone (ctxs s ! k)" if "k < length (ctxs s)" for k
    using b[OF that] by metis
qed

lemma world_ok_init:
  assumes "world_ok s" "sig < length (sigs s)"
  shows "\<exists>t. init s sig = Inr t \<and> world_ok t \<and> fault t = fault s \<and> procs t = procs s \<and>
             make_once (sigs t ! sig)"
proof (cases "make_once (sigs s ! sig)")
  case True
  with assms show ?thesis by (simp add: init_made)
next
  case False
  let ?t = "s\<lparr>chans := chans s @ [False],
              sigs := (sigs s)[sig := (sigs s ! sig)\<lparr>done_ch := Some (length (chans s)), make_once := True\<rparr>]\<rparr>"
  note so = world_okD(1)[OF assms(1)] and co = world_okD(2)[OF assms(1)]
    and sep = world_okD(3)[OF assms(1)] and go = world_okD(4)[OF assms(1)]
  have t: "init s sig = Inr ?t" using assms(2) False by (rule init_fresh)
  have "world_ok ?t"
  proof (rule world_okI)
    fix i assume "i < length (sigs ?t)"
    then have i: "i < length (sigs s)" by simp
    show "sig_ok ?t i"
      using so[OF i] so[OF assms(2)] False
      by (auto simp: sig_ok_def nth_list_update nth_append split: option.splits)
  next
    fix k assume "k < length (ctxs ?t)"
    then have k: "k < length (ctxs s)" by simp
    show "ctx_ok ?t k" using co[OF k] by (auto simp: ctx_ok_def nth_append)
  next
    show "separate ?t"
      using sep assms(2) unfolding separate_def
      by (auto simp: nth_list_update fresh_chan[OF assms(1)])
  next
    fix n assume "n < length (procs ?t)"
    then have n: "n < length (procs s)" by simp
    have "gor_ok ?t (procs s ! n)"
      using evolves_init[OF t] go[OF n] by (rule gor_ok_evolves)
    then show "gor_ok ?t (procs ?t ! n)" by simp
  qed
  with t assms(2) show ?thesis by simp
qed

lemma world_ok_close_Do:
  assumes "world_ok s" "sig < length (sigs s)" "make_once (sigs s ! sig)"
  shows "\<exists>t. close_Do s sig = Inr t \<and> world_ok t \<and> fault t = fault s \<and> procs t = procs s \<and>
             terminated t sig"
proof -
  note so = world_okD(1)[OF assms(1)] and co = world_okD(2)[OF assms(1)]
    and sep = world_okD(3)[OF assms(1)] and go = world_okD(4)[OF assms(1)]
  from so[OF assms(2)] assms(3) obtain c where c: "done_ch (sigs s ! sig) = Some c"
    "c < length (chans s)" "chans s ! c = close_once (sigs s ! sig)"
    by (auto simp: sig_ok_def split: option.splits)
  show ?thesis
  proof (cases "close_once (sigs s ! sig)")
    case True
    with assms c show ?thesis
      by (simp add: close_Do_closed terminated_def ready_def)
  next
    case False
    let ?t = "s\<lparr>sigs := (sigs s)[sig := (sigs s ! sig)\<lparr>close_once := True\<rparr>],
                chans := (chans s)[c := True], closes := closes s + 1\<rparr>"
    have t: "close_Do s sig = Inr ?t"
      using so[OF assms(2)] c(1) False by (rule close_Do_open)
    have other: "done_ch (sigs s ! i) \<noteq> Some c" if "i < length (sigs s)" "i \<noteq> sig" for i
      using separateD(1)[OF sep that(1) assms(2) that(2) c(1)] .
    have otherc: "cdone (ctxs s ! k) \<noteq> c" if "k < length (ctxs s)" for k
      using separateD(2)[OF sep assms(2) that] c(1) by auto
    have "world_ok ?t"
    proof (rule world_okI)
      fix i assume "i < length (sigs ?t)"
      then have i: "i < length (sigs s)" by simp
      show "sig_ok ?t i"
      proof (cases "i = sig")
        case True
        with c assms(2,3) show ?thesis by (simp add: sig_ok_def)
      next
        case ne: False
        with so[OF i] other[OF i ne] show ?thesis
          by (auto simp: sig_ok_def nth_list_update split: option.splits)
      qed
    next
      fix k assume "k < length (ctxs ?t)"
      then have k: "k < length (ctxs s)" by simp
      show "ctx_ok ?t k" using co[OF k] otherc[OF k] by (auto simp: ctx_ok_def nth_list_update)
    next
      show "separate ?t"
        using sep assms(2) unfolding separate_def
        by (auto simp: nth_list_update)
    next
      fix n assume "n < length (procs ?t)"
      then have n: "n < length (procs s)" by simp
      have "gor_ok ?t (procs s ! n)"
        using evolves_close_Do[OF t] go[OF n] by (rule gor_ok_evolves)
      then show "gor_ok ?t (procs ?t ! n)" by simp
    qed
    with t assms(2) c show ?thesis by (simp add: terminated_def ready_def)
  qed
qed

lemma world_ok_std_cancel:
  assumes "world_ok s" "k < length (ctxs s)"
  shows "\<exists>t. std_cancel s k = Inr t \<and> world_ok t \<and> fault t = fault s \<and> procs t = procs s \<and>
             ctx_terminated t (StdCtx k)"
proof -
  note so = world_okD(1)[OF assms(1)] and co = world_okD(2)[OF assms(1)]
    and sep = world_okD(3)[OF assms(1)] and go = world_okD(4)[OF assms(1)]
  let ?c = "cdone (ctxs s ! k)"
  from co[OF assms(2)] have c: "?c < length (chans s)" "chans s ! ?c = cerr (ctxs s ! k)"
    by (auto simp: ctx_ok_def)
  show ?thesis
  proof (cases "cerr (ctxs s ! k)")
    case True
    with assms c show ?thesis
      by (simp add: std_cancel_def ctx_terminated_def ready_def)
  next
    case False
    let ?t = "s\<lparr>ctxs := (ctxs s)[k := (ctxs s ! k)\<lparr>cerr := True\<rparr>],
                chans := (chans s)[?c := True], closes := closes s + 1\<rparr>"
    have t: "std_cancel s k = Inr ?t"
      using assms(2) c False by (simp add: std_cancel_def close_chan_def)
    have other: "done_ch (sigs s ! i) \<noteq> Some ?c" if "i < length (sigs s)" for i
      using separateD(2)[OF sep that assms(2)] .
    have otherc: "cdone (ctxs s ! l) \<noteq> ?c" if "l < length (ctxs s)" "l \<noteq> k" for l
      using separateD(3)[OF sep that(1) assms(2) that(2)] .
    have "world_ok ?t"
    proof (rule world_okI)
      fix i assume "i < length (sigs ?t)"
      then have i: "i < length (sigs s)" by simp
      show "sig_ok ?t i"
        using so[OF i] other[OF i]
        by (auto simp: sig_ok_def nth_list_update split: option.splits)
    next
      fix l assume "l < length (ctxs ?t)"
      then have l: "l < length (ctxs s)" by simp
      show "ctx_ok ?t l"
      proof (cases "l = k")
        case True
        with c assms(2) show ?thesis by (simp add: ctx_ok_def)
      next
        case False
        with co[OF l] otherc[OF l False] show ?thesis by (simp add: ctx_ok_def)
      qed
    next
      show "separate ?t"
        using sep assms(2) unfolding separate_def
        by (auto simp: nth_list_update)
    next
      fix n assume "n < length (procs ?t)"
      then have n: "n < length (procs s)" by simp
      have "gor_ok ?t (procs s ! n)"
        using evolves_std_cancel[OF t] go[OF n] by (rule gor_ok_evolves)
      then show "gor_ok ?t (procs ?t ! n)" by simp
    qed
    with t assms(2) c show ?thesis by (simp add: ctx_terminated_def ready_def)
  qed
qed

lemma gor_ok_cong: "sigs t = sigs s \<Longrightarrow> ctxs t = ctxs s \<Longrightarrow> gor_ok t g = gor_ok s g"
  by (cases g) (auto simp: ctx_valid_def split: Context.splits)

lemma sig_ok_cong: "sigs t = sigs s \<Longrightarrow> chans t = chans s \<Longrightarrow> sig_ok t i = sig_ok s i"
  by (simp add: sig_ok_def cong: option.case_cong)

lemma ctx_ok_cong: "ctxs t = ctxs s \<Longrightarrow> chans t = chans s \<Longrightarrow> ctx_ok t i = ctx_ok s i"
  by (simp add: ctx_ok_def)

lemma separate_cong: "sigs t = sigs s \<Longrightarrow> ctxs t = ctxs s \<Longrightarrow> separate t = separate s"
  by (simp add: separate_def)

lemma world_ok_cong:
  "sigs t = sigs s \<Longrightarrow> ctxs t = ctxs s \<Longrightarrow> chans t = chans s \<Longrightarrow> procs t = procs s \<Longrightarrow>
   world_ok t = world_ok s"
  using sig_ok_cong[of t s] ctx_ok_cong[of t s] separate_cong[of t s] gor_ok_cong[of t s]
  by (simp add: world_ok_def)

lemma world_ok_clock: "world_ok (s\<lparr>clock := w\<rparr>) = world_ok s"
  by (rule world_ok_cong) simp_all

lemma world_ok_crash: "world_ok (crash s p) = world_ok s"
  by (rule world_ok_cong) (simp_all add: crash_def)

lemma world_ok_procs:
  assumes "world_ok s" "\<And>n. n < length ps \<Longrightarrow> gor_ok s (ps ! n)"
  shows "world_ok (s\<lparr>procs := ps\<rparr>)"
proof (rule world_okI)
  fix n assume "n < length (procs (s\<lparr>procs := ps\<rparr>))"
  then have "gor_ok s (ps ! n)" using assms(2) by simp
  then show "gor_ok (s\<lparr>procs := ps\<rparr>) (procs (s\<lparr>procs := ps\<rparr>) ! n)"
    by (simp add: gor_ok_cong[of "s\<lparr>procs := ps\<rparr>" s])
qed (use world_okD(1,2,3)[OF assms(1)] in
      \<open>simp_all add: sig_ok_cong[of "s\<lparr>procs := ps\<rparr>" s] ctx_ok_cong[of "s\<lparr>procs := ps\<rparr>" s]
                     separate_cong[of "s\<lparr>procs := ps\<rparr>" s]\<close>)

lemma world_ok_spawn: "world_ok s \<Longrightarrow> gor_ok s g \<Longrightarrow> world_ok (spawn s g)"
  unfolding spawn_def
  by (rule world_ok_procs) (auto simp: nth_append world_okD(4))

lemma world_ok_set_proc:
  assumes "world_ok s" "gor_ok s g"
  shows "world_ok (s\<lparr>procs := (procs s)[i := g]\<rparr>)"
proof (rule world_ok_procs[OF assms(1)])
  fix n assume n: "n < length ((procs s)[i := g])"
  show "gor_ok s ((procs s)[i := g] ! n)"
  proof (cases "n = i")
    case True
    with n assms(2) show ?thesis by simp
  next
    case False
    with n world_okD(4)[OF assms(1), of n] show ?thesis by simp
  qed
qed

lemma world_ok_alloc:
  assumes "world_ok s"
  shows "world_ok (snd (alloc_Signal s))"
proof -
  let ?t = "s\<lparr>sigs := sigs s @ [zero_Signal]\<rparr>"
  note so = world_okD(1)[OF assms(1)] and co = world_okD(2)[OF assms(1)]
    and sep = world_okD(3)[OF assms(1)] and go = world_okD(4)[OF assms(1)]
  have ev: "evolves s ?t" using evolves_alloc[of s] by (simp add: alloc_Signal_def)
  have "world_ok ?t"
  proof (rule world_okI)
    fix i assume "i < length (sigs ?t)"
    then consider "i < length (sigs s)" | "i = length (sigs s)" by fastforce
    then show "sig_ok ?t i"
    proof cases
      case 1
      with so[OF 1] show ?thesis by (simp add: sig_ok_def nth_append cong: option.case_cong)
    next
      case 2
      then show ?thesis by (simp add: sig_ok_def zero_Signal_def)
    qed
  next
    fix k assume "k < length (ctxs ?t)"
    then show "ctx_ok ?t k" using co[of k] by (simp add: ctx_ok_def)
  next
    show "separate ?t"
      using sep unfolding separate_def
      by (auto simp: nth_append zero_Signal_def less_Suc_eq)
  next
    fix n assume "n < length (procs ?t)"
    then have n: "n < length (procs s)" by simp
    have "gor_ok ?t (procs s ! n)" using ev go[OF n] by (rule gor_ok_evolves)
    then show "gor_ok ?t (procs ?t ! n)" by simp
  qed
  then show ?thesis by (simp add: alloc_Signal_def)
qed

lemma world_ok_WithCancel:
  assumes "world_ok s"
  shows "world_ok (snd (WithCancel s))"
proof -
  let ?t = "s\<lparr>chans := chans s @ [False], ctxs := ctxs s @ [\<lparr>cdone = length (chans s), cerr = False\<rparr>]\<rparr>"
  note so = world_okD(1)[OF assms(1)] and co = world_okD(2)[OF assms(1)]
    and sep = world_okD(3)[OF assms(1)] and go = world_okD(4)[OF assms(1)]
  have eq: "snd (WithCancel s) = ?t" by (simp add: WithCancel_def make_chan_def)
  have ev: "evolves s ?t" using evolves_WithCancel[of s] by (simp add: eq)
  have "world_ok ?t"
  proof (rule world_okI)
    fix i assume "i < length (sigs ?t)"
    then show "sig_ok ?t i" using so[of i]
      by (auto simp: sig_ok_def nth_append split: option.splits)
  next
    fix k assume "k < length (ctxs ?t)"
    then consider "k < length (ctxs s)" | "k = length (ctxs s)" by fastforce
    then show "ctx_ok ?t k"
    proof cases
      case 1
      with co[OF 1] show ?thesis by (simp add: ctx_ok_def nth_append)
    next
      case 2
      then show ?thesis by (simp add: ctx_ok_def)
    qed
  next
    show "separate ?t"
      using sep unfolding separate_def
      by (auto simp: nth_append less_Suc_eq fresh_chan[OF assms])
  next
    fix n assume "n < length (procs ?t)"
    then have n: "n < length (procs s)" by simp
    have "gor_ok ?t (procs s ! n)" using ev go[OF n] by (rule gor_ok_evolves)
    then show "gor_ok ?t (procs ?t ! n)" by simp
  qed
  then show ?thesis by (simp add: eq)
qed

lemma world_ok_Done:
  assumes "world_ok s" "sig < length (sigs s)"
  shows "\<exists>c t. Done s sig = Inr (Some c, t) \<and> world_ok t \<and> fault t = fault s \<and> procs t = procs s \<and>
           make_once (sigs t ! sig) \<and> done_ch (sigs t ! sig) = Some c"
proof -
  from world_ok_init[OF assms] obtain t where t: "init s sig = Inr t" "world_ok t"
    "fault t = fault s" "procs t = procs s" "make_once (sigs t ! sig)" by blast
  from evolves_init[OF t(1)] assms(2) have v: "sig < length (sigs t)" by (simp add: evolves_def)
  from world_okD(1)[OF t(2) v] t(5) obtain c where "done_ch (sigs t ! sig) = Some c"
    by (auto simp: sig_ok_def split: option.splits)
  with t show ?thesis by (simp add: Done_def)
qed

lemma world_ok_Cancel:
  assumes "world_ok s" "sig < length (sigs s)"
  shows "\<exists>t. Cancel s sig = Inr t \<and> world_ok t \<and> fault t = fault s \<and> procs t = procs s \<and>
           terminated t sig"
proof -
  from world_ok_init[OF assms] obtain t where t: "init s sig = Inr t" "world_ok t"
    "fault t = fault s" "procs t = procs s" "make_once (sigs t ! sig)" by blast
  from evolves_init[OF t(1)] assms(2) have v: "sig < length (sigs t)" by (simp add: evolves_def)
  from world_ok_close_Do[OF t(2) v t(5)] t show ?thesis
    by (auto simp: Cancel_def)
qed

lemma world_ok_ctx_Done:
  assumes "world_ok s" "ctx_valid s ctx"
  shows "\<exists>c t. ctx_Done s ctx = Inr (Some c, t) \<and> world_ok t \<and> fault t = fault s \<and> procs t = procs s"
proof (cases ctx)
  case (SignalCtx sig)
  with assms(2) have "sig < length (sigs s)" by (simp add: ctx_valid_def)
  from world_ok_Done[OF assms(1) this] SignalCtx show ?thesis by (auto simp: ctx_Done_def)
next
  case (StdCtx k)
  with assms show ?thesis by (simp add: ctx_Done_def ctx_valid_def)
qed

lemma world_ok_gstep:
  assumes ok: "world_ok s" and g: "gor_ok s g" and r: "r \<in> set (gstep s g)"
  shows "\<exists>t g'. r = Inr (t, g') \<and> world_ok t \<and> gor_ok t g' \<and> fault t = fault s \<and> procs t = procs s"
proof (cases g)
  case (TimeoutGo sig d)
  with g have v: "sig < length (sigs s)" by simp
  from world_ok_Done[OF ok v] obtain c t where t: "Done s sig = Inr (Some c, t)" "world_ok t"
    "fault t = fault s" "procs t = procs s" by blast
  from evolves_Done[OF t(1)] v have "sig < length (sigs t)" by (simp add: evolves_def)
  with t r TimeoutGo show ?thesis by simp
next
  case (TimeoutSelect sig w c)
  with ok g r show ?thesis by (auto simp: select2_def split: if_splits)
next
  case (PropagateGo sig parent)
  with g have v: "sig < length (sigs s)" "ctx_valid s parent" by simp_all
  from world_ok_ctx_Done[OF ok v(2)] obtain pc s1 where s1: "ctx_Done s parent = Inr (Some pc, s1)"
    "world_ok s1" "fault s1 = fault s" "procs s1 = procs s" by blast
  from evolves_ctx_Done[OF s1(1)] v have v1: "sig < length (sigs s1)" by (simp add: evolves_def)
  from world_ok_Done[OF s1(2) v1] obtain c t where t: "Done s1 sig = Inr (Some c, t)" "world_ok t"
    "fault t = fault s1" "procs t = procs s1" by blast
  from evolves_Done[OF t(1)] v1 have "sig < length (sigs t)" by (simp add: evolves_def)
  with s1 t r PropagateGo show ?thesis by simp
next
  case (PropagateSelect sig pc c)
  with ok g r show ?thesis by (auto simp: select2_def split: if_splits)
next
  case (PromoteGo ctx k)
  with g have v: "ctx_valid s ctx" "k < length (ctxs s)" by simp_all
  from world_ok_ctx_Done[OF ok v(1)] obtain pc s1 where s1: "ctx_Done s ctx = Inr (Some pc, s1)"
    "world_ok s1" "fault s1 = fault s" "procs s1 = procs s" by blast
  from evolves_ctx_Done[OF s1(1)] v have v1: "k < length (ctxs s1)" by (simp add: evolves_def)
  then have "ctx_Done s1 (StdCtx k) = Inr (Some (cdone (ctxs s1 ! k)), s1)" by (simp add: ctx_Done_def)
  with s1 v1 r PromoteGo show ?thesis by simp
next
  case (PromoteSelect pc k c)
  with ok g r show ?thesis by (auto simp: select2_def split: if_splits)
next
  case (CancelCall sig)
  with g have v: "sig < length (sigs s)" by simp
  from world_ok_init[OF ok v] obtain t where t: "init s sig = Inr t" "world_ok t"
    "fault t = fault s" "procs t = procs s" "make_once (sigs t ! sig)" by blast
  from evolves_init[OF t(1)] v have "sig < length (sigs t)" by (simp add: evolves_def)
  with t r CancelCall show ?thesis by simp
next
  case (CancelClose sig)
  with g have v: "sig < length (sigs s)" "make_once (sigs s ! sig)" by simp_all
  from world_ok_close_Do[OF ok v] r CancelClose show ?thesis by auto
next
  case (StdCancelCall k)
  with g have v: "k < length (ctxs s)" by simp
  from world_ok_std_cancel[OF ok v] r StdCancelCall show ?thesis by (auto simp: call_def)
next
  case Exited
  with r show ?thesis by simp
qed

lemma world_ok_sched:
  assumes ok: "world_ok s"
  shows "world_ok (sched s i k) \<and> fault (sched s i k) = fault s"
proof (cases "i < length (procs s) \<and> k < length (gstep s (procs s ! i))")
  case False
  with ok show ?thesis by (auto simp: sched_def)
next
  case True
  then have "gstep s (procs s ! i) ! k \<in> set (gstep s (procs s ! i))" by simp
  from world_ok_gstep[OF ok world_okD(4)[OF ok] this] True
  obtain t g' where t: "gstep s (procs s ! i) ! k = Inr (t, g')" "world_ok t" "gor_ok t g'"
    "fault t = fault s" "procs t = procs s" by blast
  from world_ok_set_proc[OF t(2,3), of i] t True show ?thesis by (simp add: sched_def)
qed

lemma world_ok_exec1:
  assumes ok: "world_ok s" and v: "valid_event s e"
  shows "world_ok (exec1 s e) \<and> fault (exec1 s e) = fault s"
proof (cases e)
  case Call_New
  let ?s1 = "snd (alloc_Signal s)"
  have ok1: "world_ok ?s1" using ok by (rule world_ok_alloc)
  have "length (sigs s) < length (sigs ?s1)" by (simp add: alloc_Signal_def)
  from world_ok_init[OF ok1 this] Call_New show ?thesis
    by (auto simp: New_def settle_def alloc_Signal_def)
next
  case Call_Zero
  with world_ok_alloc[OF ok] show ?thesis by (simp add: alloc_Signal_def)
next
  case (Call_Done sig)
  with v world_ok_Done[OF ok, of sig] show ?thesis by (auto simp: settle_def)
next
  case (Call_Cancel sig)
  with v world_ok_Cancel[OF ok, of sig] show ?thesis by (auto simp: settle_def)
next
  case (Call_Timeout sig d)
  with v world_ok_spawn[OF ok, of "TimeoutGo sig d"] show ?thesis
    by (simp add: Timeout_def) (simp add: spawn_def)
next
  case (Call_Deadline sig t)
  with v world_ok_spawn[OF ok, of "TimeoutGo sig (Until s t)"] show ?thesis
    by (simp add: Deadline_def Timeout_def) (simp add: spawn_def)
next
  case (Call_Propagate sig parent)
  with v world_ok_spawn[OF ok, of "PropagateGo sig parent"] show ?thesis
    by (simp add: Propagate_def) (simp add: spawn_def)
next
  case (Call_Promote ctx)
  let ?s1 = "snd (WithCancel s)"
  have ok1: "world_ok ?s1" using ok by (rule world_ok_WithCancel)
  have k: "fst (WithCancel s) = length (ctxs s)" "length (ctxs ?s1) = Suc (length (ctxs s))"
    "fault ?s1 = fault s"
    by (simp_all add: WithCancel_def make_chan_def)
  from v Call_Promote have "ctx_valid ?s1 ctx"
    using ctx_valid_evolves[OF evolves_WithCancel] by simp
  with k have "gor_ok ?s1 (PromoteGo ctx (length (ctxs s)))" by simp
  from world_ok_spawn[OF ok1 this] k Call_Promote show ?thesis
    by (simp add: Promote_def split: prod.splits) (auto simp: spawn_def)
next
  case (Call_Release f)
  obtain k where f: "f = CancelFunc k" by (cases f)
  with v Call_Release world_ok_std_cancel[OF ok, of k] show ?thesis
    by (auto simp: settle_def call_def)
next
  case (Go_Cancel sig)
  with v world_ok_spawn[OF ok, of "CancelCall sig"] show ?thesis
    by simp (simp add: spawn_def)
next
  case (Sched i k)
  with world_ok_sched[OF ok] show ?thesis by simp
next
  case (Tick d)
  with ok show ?thesis by (simp add: world_ok_clock)
qed

lemma world_ok_exec:
  "world_ok s \<Longrightarrow> valid_event s e \<Longrightarrow> world_ok (exec s e) \<and> fault (exec s e) = fault s"
  by (simp add: exec_def world_ok_exec1)

lemma world_ok_run:
  "world_ok s \<Longrightarrow> valid_run s es \<Longrightarrow> world_ok (run s es) \<and> fault (run s es) = fault s"
proof (induction es arbitrary: s)
  case Nil
  then show ?case by simp
next
  case (Cons e es)
  from world_ok_exec[of s e] Cons.prems have "world_ok (exec s e)" "fault (exec s e) = fault s"
    by simp_all
  with Cons.IH[of "exec s e"] Cons.prems show ?case by simp
qed

section \<open>Cancel, once and many times\<close>

lemma init_procs:
  "init (s\<lparr>procs := ps\<rparr>) sig = map_sum id (\<lambda>t. t\<lparr>procs := ps\<rparr>) (init s sig)"
  by (simp add: init_def make_chan_def)

lemma close_Do_procs:
  "close_Do (s\<lparr>procs := ps\<rparr>) sig = map_sum id (\<lambda>t. t\<lparr>procs := ps\<rparr>) (close_Do s sig)"
  by (simp add: close_Do_def close_chan_def split: option.splits)

lemma sig_ok_Cancel:
  assumes "sig_ok s sig"
  shows "\<exists>a b. init s sig = Inr a \<and> close_Do a sig = Inr b \<and> Cancel s sig = Inr b \<and>
           init a sig = Inr a \<and> init b sig = Inr b \<and> close_Do b sig = Inr b \<and> Cancel b sig = Inr b \<and>
           procs a = procs s \<and> procs b = procs s \<and> fault a = fault s \<and> fault b = fault s \<and>
           terminated b sig \<and> closes b = closes s + (if terminated s sig then 0 else 1) \<and>
           done_ch (sigs a ! sig) \<noteq> None \<and> done_ch (sigs b ! sig) = done_ch (sigs a ! sig)"
proof -
  from assms have v: "sig < length (sigs s)" by (simp add: sig_ok_def)
  show ?thesis
  proof (cases "make_once (sigs s ! sig)")
    case made: True
    then have i: "init s sig = Inr s" using v by (simp add: init_made)
    from assms made obtain c where c: "done_ch (sigs s ! sig) = Some c" "c < length (chans s)"
      "chans s ! c = close_once (sigs s ! sig)"
      by (auto simp: sig_ok_def split: option.splits)
    show ?thesis
    proof (cases "close_once (sigs s ! sig)")
      case True
      with v i c show ?thesis
        by (simp add: close_Do_closed Cancel_def terminated_def ready_def)
    next
      case False
      let ?b = "s\<lparr>sigs := (sigs s)[sig := (sigs s ! sig)\<lparr>close_once := True\<rparr>],
                  chans := (chans s)[c := True], closes := closes s + 1\<rparr>"
      have "close_Do s sig = Inr ?b" using assms c(1) False by (rule close_Do_open)
      with v i c made False show ?thesis
        by (simp add: close_Do_closed init_made Cancel_def terminated_def ready_def)
    qed
  next
    case False
    let ?a = "s\<lparr>chans := chans s @ [False],
                sigs := (sigs s)[sig := (sigs s ! sig)\<lparr>done_ch := Some (length (chans s)), make_once := True\<rparr>]\<rparr>"
    let ?b = "?a\<lparr>sigs := (sigs ?a)[sig := (sigs ?a ! sig)\<lparr>close_once := True\<rparr>],
                  chans := (chans ?a)[length (chans s) := True], closes := closes ?a + 1\<rparr>"
    have i: "init s sig = Inr ?a" using v False by (rule init_fresh)
    from assms False have nc: "\<not> close_once (sigs s ! sig)" "done_ch (sigs s ! sig) = None"
      by (auto simp: sig_ok_def split: option.splits)
    have oka: "sig_ok ?a sig" using v nc by (simp add: sig_ok_def nth_append)
    have "close_Do ?a sig = Inr ?b"
      by (rule close_Do_open[OF oka]) (use v nc in simp_all)
    with v i nc show ?thesis
      by (simp add: close_Do_closed init_made Cancel_def terminated_def ready_def)
  qed
qed

lemma Cancel_times_once:
  assumes "sig_ok s sig" "1 \<le> N"
  shows "Cancel_times N s sig = Cancel s sig"
proof -
  from sig_ok_Cancel[OF assms(1)] obtain b where b: "Cancel s sig = Inr b" "Cancel b sig = Inr b"
    by blast
  have "Cancel_times n b sig = Inr b" for n
    by (induction n) (simp_all add: b)
  with b assms(2) show ?thesis by (cases N) simp_all
qed

lemma core_procs: "st\<lparr>procs := ps\<rparr> = x \<Longrightarrow> st = x\<lparr>procs := procs st\<rparr>"
  by auto

lemma take_update_ge: "n \<le> i \<Longrightarrow> take n (xs[i := x]) = take n xs"
  by simp

lemma list_all_update: "list_all P xs \<Longrightarrow> P x \<Longrightarrow> list_all P (xs[i := x])"
  by (induction xs arbitrary: i) (auto split: nat.splits)

lemma cancellingI:
  assumes "procs x = procs s" "fault x = None" "length ps = length (procs s) + N"
    "take (length (procs s)) ps = procs s"
    "list_all (in_Cancel sig) (drop (length (procs s)) ps)"
    "x = s \<and> list_all (\<lambda>g. g = CancelCall sig) (drop (length (procs s)) ps) \<or>
     Inr x = init s sig \<and> list_all (\<lambda>g. g \<noteq> Exited) (drop (length (procs s)) ps) \<or>
     Inr x = Cancel s sig"
  shows "cancelling s sig N (x\<lparr>procs := ps\<rparr>)"
proof -
  have e: "(x\<lparr>procs := ps\<rparr>)\<lparr>procs := procs s\<rparr> = x" using assms(1) by simp
  have p: "procs (x\<lparr>procs := ps\<rparr>) = ps" "fault (x\<lparr>procs := ps\<rparr>) = fault x" by simp_all
  show ?thesis unfolding cancelling_def e p using assms(2-) by blast
qed

lemma cancelling_sched:
  assumes ok: "sig_ok s sig" and f: "fault s = None" and inv: "cancelling s sig N st"
    and le: "length (procs s) \<le> i"
  shows "cancelling s sig N (sched st i k)"
proof (cases "i < length (procs st) \<and> k < length (gstep st (procs st ! i))")
  case False
  with inv show ?thesis by (auto simp: sched_def)
next
  case True
  let ?n = "length (procs s)"
  let ?gs = "drop ?n (procs st)"
  from sig_ok_Cancel[OF ok] obtain a b where ab: "init s sig = Inr a" "close_Do a sig = Inr b"
    "Cancel s sig = Inr b" "init a sig = Inr a" "init b sig = Inr b" "close_Do b sig = Inr b"
    "procs a = procs s" "procs b = procs s" "fault a = fault s" "fault b = fault s"
    by blast
  from inv have len: "length (procs st) = ?n + N" and tk: "take ?n (procs st) = procs s" and all: "list_all (in_Cancel sig) ?gs"
    and nf: "fault st = None"
    and ph: "st\<lparr>procs := procs s\<rparr> = s \<and> list_all (\<lambda>g. g = CancelCall sig) ?gs \<or>
       st\<lparr>procs := procs s\<rparr> = a \<and> list_all (\<lambda>g. g \<noteq> Exited) ?gs \<or>
       st\<lparr>procs := procs s\<rparr> = b"
    by (auto simp: cancelling_def ab)
  from True le have gi: "procs st ! i = ?gs ! (i - ?n)" "i - ?n < length ?gs" by auto
  with all have g: "in_Cancel sig (procs st ! i)" by (simp add: list_all_length)
  have drop_upd: "drop ?n ((procs st)[i := g']) = ?gs[i - ?n := g']" for g'
    using le by (simp add: drop_update_swap)
  have tk_upd: "take ?n ((procs st)[i := g']) = procs s" for g'
    using le tk by simp
  have allc: "list_all (in_Cancel sig) (drop ?n ((procs st)[i := CancelClose sig]))"
    unfolding drop_upd by (rule list_all_update[OF all]) (simp add: in_Cancel_def)
  have alle: "list_all (in_Cancel sig) (drop ?n ((procs st)[i := Exited]))"
    unfolding drop_upd by (rule list_all_update[OF all]) (simp add: in_Cancel_def)
  have keep: "list_all (\<lambda>g. g \<noteq> Exited) ?gs \<Longrightarrow>
      list_all (\<lambda>g. g \<noteq> Exited) (drop ?n ((procs st)[i := CancelClose sig]))"
    unfolding drop_upd by (rule list_all_update) simp_all
  from g have gcases: "procs st ! i = CancelCall sig \<or> procs st ! i = CancelClose sig \<or>
      procs st ! i = Exited" by (simp add: in_Cancel_def)
  from ph consider
      (P0) "st = s\<lparr>procs := procs st\<rparr>" "list_all (\<lambda>g. g = CancelCall sig) ?gs"
    | (P1) "st = a\<lparr>procs := procs st\<rparr>" "list_all (\<lambda>g. g \<noteq> Exited) ?gs"
    | (P2) "st = b\<lparr>procs := procs st\<rparr>"
    by (auto dest: core_procs)
  then show ?thesis
  proof cases
    case P0
    from P0(2) gi have gc: "procs st ! i = CancelCall sig" by (simp add: list_all_length)
    have "init st sig = Inr (a\<lparr>procs := procs st\<rparr>)"
      by (subst P0(1)) (simp add: init_procs ab)
    with True gc have sc: "sched st i k = a\<lparr>procs := (procs st)[i := CancelClose sig]\<rparr>"
      by (simp add: sched_def)
    have "list_all (\<lambda>g. g \<noteq> Exited) ?gs" using P0(2) by (auto simp: list_all_iff)
    from keep[OF this] show ?thesis
      unfolding sc by (intro cancellingI) (simp_all add: ab f tk_upd allc len)
  next
    case P1
    from P1(2) gi gcases have "procs st ! i = CancelCall sig \<or> procs st ! i = CancelClose sig"
      by (auto simp: list_all_length)
    then show ?thesis
    proof
      assume gc: "procs st ! i = CancelCall sig"
      have "init st sig = Inr (a\<lparr>procs := procs st\<rparr>)"
        by (subst P1(1)) (simp add: init_procs ab)
      with True gc have sc: "sched st i k = a\<lparr>procs := (procs st)[i := CancelClose sig]\<rparr>"
        by (simp add: sched_def)
      from keep[OF P1(2)] show ?thesis
        unfolding sc by (intro cancellingI) (simp_all add: ab f tk_upd allc len)
    next
      assume gc: "procs st ! i = CancelClose sig"
      have "close_Do st sig = Inr (b\<lparr>procs := procs st\<rparr>)"
        by (subst P1(1)) (simp add: close_Do_procs ab)
      with True gc have sc: "sched st i k = b\<lparr>procs := (procs st)[i := Exited]\<rparr>"
        by (simp add: sched_def)
      show ?thesis
        unfolding sc by (intro cancellingI) (simp_all add: ab f tk_upd alle len)
    qed
  next
    case P2
    from gcases show ?thesis
    proof (elim disjE)
      assume gc: "procs st ! i = CancelCall sig"
      have "init st sig = Inr (b\<lparr>procs := procs st\<rparr>)"
        by (subst P2(1)) (simp add: init_procs ab)
      with True gc have sc: "sched st i k = b\<lparr>procs := (procs st)[i := CancelClose sig]\<rparr>"
        by (simp add: sched_def)
      show ?thesis
        unfolding sc by (intro cancellingI) (simp_all add: ab f tk_upd allc len)
    next
      assume gc: "procs st ! i = CancelClose sig"
      have "close_Do st sig = Inr (b\<lparr>procs := procs st\<rparr>)"
        by (subst P2(1)) (simp add: close_Do_procs ab)
      with True gc have sc: "sched st i k = b\<lparr>procs := (procs st)[i := Exited]\<rparr>"
        by (simp add: sched_def)
      show ?thesis
        unfolding sc by (intro cancellingI) (simp_all add: ab f tk_upd alle len)
    next
      assume "procs st ! i = Exited"
      with True show ?thesis by simp
    qed
  qed
qed

lemma cancelling_run:
  assumes ok: "sig_ok s sig" and f: "fault s = None"
  shows "cancelling s sig N st \<Longrightarrow> list_all (runs_from (length (procs s))) es \<Longrightarrow>
         cancelling s sig N (run st es)"
proof (induction es arbitrary: st)
  case Nil
  then show ?case by simp
next
  case (Cons e es)
  from Cons.prems(2) obtain i k where e: "e = Sched i k" "length (procs s) \<le> i"
    by (cases e) auto
  from Cons.prems(1) have "fault st = None" by (simp add: cancelling_def)
  with cancelling_sched[OF ok f Cons.prems(1) e(2), of k] e
  have "cancelling s sig N (exec st e)" by (simp add: exec_def)
  with Cons.IH[of "exec st e"] Cons.prems(2) show ?case by simp
qed

lemma run_append: "run s (es @ fs) = run (run s es) fs"
  by (induction es arbitrary: s) simp_all

lemma run_Go_Cancel:
  "fault s = None \<Longrightarrow> run s (replicate N (Go_Cancel sig)) = s\<lparr>procs := procs s @ replicate N (CancelCall sig)\<rparr>"
proof (induction N arbitrary: s)
  case 0
  then show ?case by simp
next
  case (Suc N)
  have "fault (spawn s (CancelCall sig)) = None" using Suc.prems by (simp add: spawn_def)
  from Suc.IH[OF this] Suc.prems show ?case
    by (simp add: exec_def spawn_def replicate_app_Cons_same)
qed

lemma cancelling_start:
  assumes "fault s = None"
  shows "cancelling s sig N (run s (replicate N (Go_Cancel sig)))"
  unfolding run_Go_Cancel[OF assms]
  by (rule cancellingI) (simp_all add: assms in_Cancel_def list_all_iff)

lemma cancelling_progress:
  assumes ok: "sig_ok s sig" and inv: "cancelling s sig N st"
    and i: "length (procs s) \<le> i" "i < length (procs st)" "procs st ! i \<noteq> Exited"
  shows "gstep st (procs st ! i) \<noteq> []"
proof -
  from inv i have "in_Cancel sig (procs st ! i)"
    by (auto simp: cancelling_def list_all_length dest!: spec[of _ "i - length (procs s)"])
  with i(3) show ?thesis
    by (auto simp: in_Cancel_def split: sum.splits)
qed

lemma cancelling_finished:
  assumes inv: "cancelling s sig N st"
    and ex: "1 \<le> N"
      "list_all (\<lambda>g. g = Exited) (drop (length (procs s)) (procs st))"
  shows "Inr (st\<lparr>procs := procs s\<rparr>) = Cancel s sig"
proof -
  let ?gs = "drop (length (procs s)) (procs st)"
  from inv ex(1) have "?gs \<noteq> []" by (simp add: cancelling_def)
  with ex(2) have "hd ?gs = Exited" "hd ?gs \<in> set ?gs"
    by (auto simp: list_all_iff)
  then have "\<not> list_all (\<lambda>g. g = CancelCall sig) ?gs" "\<not> list_all (\<lambda>g. g \<noteq> Exited) ?gs"
    by (auto simp: list_all_iff)
  with inv show ?thesis by (auto simp: cancelling_def)
qed

section \<open>Goroutines run to their end\<close>

lemma ctx_terminated_chan: "ctx_terminated s ctx = (ctx_valid s ctx \<and> ready s (chan_of s ctx))"
  by (simp add: ctx_terminated_def terminated_def ctx_valid_def chan_of_def split: Context.splits)

lemma made_evolves:
  assumes "evolves s t" "ctx_valid s ctx" "made s ctx"
  shows "made t ctx \<and> chan_of t ctx = chan_of s ctx"
  using assms by (cases ctx) (auto simp: evolves_def made_def chan_of_def ctx_valid_def)

lemma ready_evolves: "evolves s t \<Longrightarrow> ready s c \<Longrightarrow> ready t c"
  by (auto simp: evolves_def ready_def split: option.splits)

lemma sig_made: "sig_ok s i \<Longrightarrow> done_ch (sigs s ! i) \<noteq> None \<Longrightarrow> make_once (sigs s ! i)"
  by (auto simp: sig_ok_def split: option.splits)

lemma terminated_made:
  assumes "world_ok s" "ctx_terminated s ctx"
  shows "made s ctx"
proof (cases ctx)
  case (SignalCtx p)
  with assms(2) have p: "p < length (sigs s)" "done_ch (sigs s ! p) \<noteq> None"
    by (auto simp: ctx_terminated_def terminated_def ready_def split: option.splits)
  from sig_made[OF world_okD(1)[OF assms(1) p(1)] p(2)] SignalCtx show ?thesis
    by (simp add: made_def)
qed (simp add: made_def)

lemma ctx_terminated_evolves:
  assumes "world_ok s" "evolves s t" "ctx_terminated s ctx"
  shows "ctx_terminated t ctx"
proof -
  from assms(3) have v: "ctx_valid s ctx" "ready s (chan_of s ctx)"
    by (simp_all add: ctx_terminated_chan)
  from made_evolves[OF assms(2) v(1) terminated_made[OF assms(1,3)]]
  have "chan_of t ctx = chan_of s ctx" by simp
  with ready_evolves[OF assms(2) v(2)] ctx_valid_evolves[OF assms(2) v(1)]
  show ?thesis by (simp add: ctx_terminated_chan)
qed

lemma trigger_ready_evolves:
  "world_ok s \<Longrightarrow> evolves s t \<Longrightarrow> trigger_ready s tr \<Longrightarrow> trigger_ready t tr"
  by (cases tr) (auto simp: trigger_ready_def intro: ctx_terminated_evolves)

lemma watches_evolves:
  "evolves s t \<Longrightarrow> trigger_valid s tr \<Longrightarrow> watches s tr pc \<Longrightarrow> watches t tr pc"
  using made_evolves by (cases tr) (auto simp: watches_def trigger_valid_def)

lemma serves_evolves:
  assumes ok: "world_ok s" and ev: "evolves s t" and g: "gor_ok s g"
    and tv: "trigger_valid s tr" and sv: "serves s tr tgt g"
  shows "serves t tr tgt g"
proof (cases g)
  case (TimeoutSelect sig w c)
  with g sv ev show ?thesis by (auto simp: evolves_def timer_ready_def)
next
  case (PropagateSelect sig pc c)
  with g sv ev watches_evolves[OF ev tv] show ?thesis by (auto simp: evolves_def)
next
  case (PromoteSelect pc k c)
  with g sv ev watches_evolves[OF ev tv] show ?thesis by (auto simp: evolves_def)
next
  case Exited
  with sv ctx_terminated_evolves[OF ok ev] show ?thesis by simp
qed (use sv in auto)

lemma serves_cong:
  "sigs t = sigs s \<Longrightarrow> ctxs t = ctxs s \<Longrightarrow> chans t = chans s \<Longrightarrow> clock t = clock s \<Longrightarrow>
   serves t tr tgt g = serves s tr tgt g"
  by (cases g)
     (auto simp: watches_def made_def chan_of_def timer_ready_def ctx_terminated_def
        terminated_def ready_def split: trigger.splits Context.splits option.splits)

lemma frame_init: "init s sig = Inr t \<Longrightarrow> procs t = procs s \<and> clock t = clock s \<and> fault t = fault s"
  by (auto simp: init_def make_chan_def split: if_splits)

lemma frame_close_Do:
  "close_Do s sig = Inr t \<Longrightarrow> procs t = procs s \<and> clock t = clock s \<and> fault t = fault s"
  by (auto simp: close_Do_def close_chan_def split: if_splits option.splits)

lemma frame_std_cancel:
  "std_cancel s k = Inr t \<Longrightarrow> procs t = procs s \<and> clock t = clock s \<and> fault t = fault s"
  by (auto simp: std_cancel_def close_chan_def split: if_splits)

lemma Done_result:
  assumes "Done s sig = Inr (c, t)"
  shows "init s sig = Inr t" "c = done_ch (sigs t ! sig)" "make_once (sigs t ! sig)"
    "sig < length (sigs t)"
proof -
  from assms show i: "init s sig = Inr t" and "c = done_ch (sigs t ! sig)"
    by (auto simp: Done_def split: sum.splits)
  from i show "make_once (sigs t ! sig)" "sig < length (sigs t)"
    by (auto simp: init_def make_chan_def split: if_splits)
qed

lemma frame_Done:
  "Done s sig = Inr (c, t) \<Longrightarrow> procs t = procs s \<and> clock t = clock s \<and> fault t = fault s"
  using Done_result(1) frame_init by blast

lemma ctx_Done_result:
  assumes "ctx_Done s ctx = Inr (pc, t)"
  shows "made t ctx" "pc = chan_of t ctx" "ctx_valid t ctx"
proof (atomize (full), cases ctx)
  case (SignalCtx p)
  with assms have "Done s p = Inr (pc, t)" by (simp add: ctx_Done_def)
  from Done_result[OF this] SignalCtx
  show "made t ctx \<and> pc = chan_of t ctx \<and> ctx_valid t ctx"
    by (simp add: made_def chan_of_def ctx_valid_def)
next
  case (StdCtx k)
  with assms show "made t ctx \<and> pc = chan_of t ctx \<and> ctx_valid t ctx"
    by (auto simp: ctx_Done_def made_def chan_of_def ctx_valid_def split: if_splits)
qed

lemma frame_ctx_Done:
  "ctx_Done s ctx = Inr (c, t) \<Longrightarrow> procs t = procs s \<and> clock t = clock s \<and> fault t = fault s"
  by (cases ctx) (auto simp: ctx_Done_def dest: frame_Done split: if_splits)

lemma frame_Cancel:
  "Cancel s sig = Inr t \<Longrightarrow> procs t = procs s \<and> clock t = clock s \<and> fault t = fault s"
  by (auto simp: Cancel_def split: sum.splits dest!: frame_init frame_close_Do)

lemma frame_gstep:
  "Inr (t, g') \<in> set (gstep s g) \<Longrightarrow> procs t = procs s \<and> clock t = clock s \<and> fault t = fault s"
  by (erule gstepE)
     (auto dest!: frame_init frame_close_Do frame_std_cancel frame_Done frame_ctx_Done)

lemma rank_gstep: "Inr (t, g') \<in> set (gstep s g) \<Longrightarrow> rank g' < rank g"
  by (erule gstepE) auto

lemma serves_gstep:
  assumes ok: "world_ok s" and g: "gor_ok s g" and tv: "trigger_valid s tr"
    and sv: "serves s tr tgt g" and st: "Inr (t, g') \<in> set (gstep s g)"
  shows "serves t tr tgt g'"
  using st
proof (cases rule: gstepE)
  case (TimeoutGo sig d c)
  from frame_Done[OF TimeoutGo(2)] have "clock t = clock s" by simp
  with TimeoutGo sv Done_result[OF TimeoutGo(2)] show ?thesis
    by (simp add: timer_ready_def timer_when_def)
next
  case (TimerFired sig w c)
  with sv show ?thesis by simp
next
  case (TimeoutDone sig w c)
  with sv g show ?thesis by (simp add: ctx_terminated_def terminated_def)
next
  case (PropagateGo sig parent pc s1 c)
  from ctx_Done_result[OF PropagateGo(2)] have p: "made s1 parent" "pc = chan_of s1 parent"
    "ctx_valid s1 parent" .
  from made_evolves[OF evolves_Done[OF PropagateGo(3)] p(3,1)] p(2)
  have "watches t (Source parent) pc" by (simp add: watches_def)
  with PropagateGo sv Done_result[OF PropagateGo(3)] show ?thesis by simp
next
  case (ParentDone sig pc c)
  with sv show ?thesis by simp
next
  case (PropagateDone sig pc c)
  with sv g show ?thesis by (simp add: ctx_terminated_def terminated_def)
next
  case (PromoteGo ctx k pc s1 c)
  from ctx_Done_result(1,2)[OF PromoteGo(2)] have p: "made s1 ctx" "pc = chan_of s1 ctx" .
  from PromoteGo(3) have k: "t = s1" "c = Some (cdone (ctxs s1 ! k))"
    by (auto simp: ctx_Done_def split: if_splits)
  with p PromoteGo sv show ?thesis by (simp add: watches_def)
next
  case (SourceDone pc k c)
  with sv show ?thesis by simp
next
  case (PromoteDone pc k c)
  with sv g show ?thesis by (simp add: ctx_terminated_def)
next
  case (CancelCall sig)
  with sv show ?thesis by simp
next
  case (CancelClose sig)
  with g have "sig < length (sigs s)" "make_once (sigs s ! sig)" by simp_all
  from world_ok_close_Do[OF ok this] CancelClose sv show ?thesis
    by (auto simp: ctx_terminated_def)
next
  case (StdCancelCall k)
  with g have "k < length (ctxs s)" by simp
  from world_ok_std_cancel[OF ok this] StdCancelCall sv show ?thesis by auto
qed

lemma gstep_enabled:
  assumes ok: "world_ok s" and g: "gor_ok s g" and sv: "serves s tr tgt g"
    and rd: "trigger_ready s tr \<or> ctx_terminated s tgt" and ne: "g \<noteq> Exited"
  shows "gstep s g \<noteq> []"
proof (cases g)
  case (TimeoutGo sig d)
  then show ?thesis by (simp split: sum.splits prod.splits)
next
  case (TimeoutSelect sig w c)
  with sv show ?thesis by (simp add: select2_def)
next
  case (PropagateGo sig parent)
  then show ?thesis by (simp split: sum.splits prod.splits)
next
  case (PropagateSelect sig pc c)
  with sv obtain src where s: "tr = Source src" "pc = chan_of s src" "tgt = SignalCtx sig"
    "c = done_ch (sigs s ! sig)"
    by (auto simp: watches_def split: trigger.splits)
  with rd have "ready s pc \<or> ready s c"
    by (auto simp: trigger_ready_def ctx_terminated_chan chan_of_def)
  with PropagateSelect show ?thesis by (auto simp: select2_def)
next
  case (PromoteGo ctx k)
  then show ?thesis by (simp split: sum.splits prod.splits)
next
  case (PromoteSelect pc k c)
  with sv obtain src where s: "tr = Source src" "pc = chan_of s src" "tgt = StdCtx k"
    "c = Some (cdone (ctxs s ! k))"
    by (auto simp: watches_def split: trigger.splits)
  with rd have "ready s pc \<or> ready s c"
    by (auto simp: trigger_ready_def ctx_terminated_chan chan_of_def)
  with PromoteSelect show ?thesis by (auto simp: select2_def)
next
  case (CancelCall sig)
  then show ?thesis by (simp split: sum.splits)
next
  case (CancelClose sig)
  then show ?thesis by (simp split: sum.splits)
next
  case (StdCancelCall k)
  then show ?thesis by (simp split: sum.splits)
next
  case Exited
  with ne show ?thesis by simp
qed

lemma ctx_terminated_cong:
  "sigs t = sigs s \<Longrightarrow> ctxs t = ctxs s \<Longrightarrow> chans t = chans s \<Longrightarrow>
   ctx_terminated t c = ctx_terminated s c"
  by (simp add: ctx_terminated_def terminated_def ready_def cong: option.case_cong Context.case_cong)

lemma trigger_ready_cong:
  "sigs t = sigs s \<Longrightarrow> ctxs t = ctxs s \<Longrightarrow> chans t = chans s \<Longrightarrow>
   trigger_ready t tr = trigger_ready s tr"
  using ctx_terminated_cong[of t s] by (simp add: trigger_ready_def cong: trigger.case_cong)

lemma sched_Exited: "n < length (procs s) \<Longrightarrow> procs s ! n = Exited \<Longrightarrow> sched s n k = s"
  by (simp add: sched_def)

lemma drain:
  assumes tv: "trigger_valid s0 tr"
  shows "world_ok s \<Longrightarrow> fault s = None \<Longrightarrow> evolves s0 s \<Longrightarrow> n < length (procs s) \<Longrightarrow>
     serves s tr tgt (procs s ! n) \<Longrightarrow> trigger_ready s tr \<or> ctx_terminated s tgt \<Longrightarrow>
     rank (procs s ! n) \<le> m \<Longrightarrow>
     fault (run s (replicate m (Sched n 0))) = None \<and>
     clock (run s (replicate m (Sched n 0))) = clock s \<and>
     procs (run s (replicate m (Sched n 0))) ! n = Exited \<and>
     ctx_terminated (run s (replicate m (Sched n 0))) tgt"
proof (induction m arbitrary: s)
  case 0
  then have "procs s ! n = Exited" by (cases "procs s ! n") simp_all
  with 0 show ?case by simp
next
  case (Suc m)
  show ?case
  proof (cases "procs s ! n = Exited")
    case True
    with Suc.prems have "exec s (Sched n 0) = s" by (simp add: exec_def sched_Exited)
    moreover from True have "rank (procs s ! n) \<le> m" by simp
    ultimately show ?thesis using Suc.IH[of s] Suc.prems by simp
  next
    case False
    let ?g = "procs s ! n"
    have g: "gor_ok s ?g" using world_okD(4)[OF Suc.prems(1,4)] .
    from gstep_enabled[OF Suc.prems(1) g Suc.prems(5,6) False]
    have en: "0 < length (gstep s ?g)" by simp
    then have mem: "gstep s ?g ! 0 \<in> set (gstep s ?g)" by simp
    from world_ok_gstep[OF Suc.prems(1) g mem] obtain t g' where
      t: "gstep s ?g ! 0 = Inr (t, g')" "world_ok t" "gor_ok t g'" "fault t = fault s"
        "procs t = procs s" by blast
    with mem have mem': "Inr (t, g') \<in> set (gstep s ?g)" by simp
    let ?s' = "t\<lparr>procs := (procs t)[n := g']\<rparr>"
    have ex: "exec s (Sched n 0) = ?s'"
      using Suc.prems(2,4) en t(1) by (simp add: exec_def sched_def)
    have tv': "trigger_valid s tr"
      using tv Suc.prems(3) by (cases tr) (auto simp: trigger_valid_def intro: ctx_valid_evolves)
    have ev: "evolves s t" using mem' by (rule evolves_gstep)
    have 1: "world_ok ?s'" using t(2,3) by (rule world_ok_set_proc)
    have 2: "fault ?s' = None" using t(4) Suc.prems(2) by simp
    have 3: "evolves s0 ?s'"
      using evolves_trans[OF Suc.prems(3) ev] by (rule evolves_procs)
    have 4: "n < length (procs ?s')" using t(5) Suc.prems(4) by simp
    have "serves t tr tgt g'" using Suc.prems(1) g tv' Suc.prems(5) mem' by (rule serves_gstep)
    then have 5: "serves ?s' tr tgt (procs ?s' ! n)"
      using 4 by (simp add: serves_cong[of ?s' t])
    have "trigger_ready t tr \<or> ctx_terminated t tgt"
      using Suc.prems(6) trigger_ready_evolves[OF Suc.prems(1) ev]
        ctx_terminated_evolves[OF Suc.prems(1) ev] by blast
    then have 6: "trigger_ready ?s' tr \<or> ctx_terminated ?s' tgt"
      by (simp add: trigger_ready_cong[of ?s' t] ctx_terminated_cong[of ?s' t])
    have 7: "rank (procs ?s' ! n) \<le> m"
      using rank_gstep[OF mem'] Suc.prems(7) 4 by simp
    have c: "clock ?s' = clock s" using frame_gstep[OF mem'] by simp
    from Suc.IH[OF 1 2 3 4 5 6 7] c ex show ?thesis by simp
  qed
qed

lemma settle_cases:
  obtains p where "r = Inl p" "settle s r = crash s p" | t where "r = Inr t" "settle s r = t"
  by (cases r) (auto simp: settle_def)

lemma procs_crash: "procs (crash s p) = procs s"
  by (simp add: crash_def)

lemma procs_exec1:
  assumes n: "n < length (procs s)" and e: "\<And>k. e \<noteq> Sched n k"
  shows "procs (exec1 s e) ! n = procs s ! n \<and> n < length (procs (exec1 s e))"
proof (cases e)
  case Call_New
  show ?thesis
  proof (cases "New s")
    case (Inl p)
    with Call_New n show ?thesis by (simp add: settle_def procs_crash)
  next
    case (Inr r)
    then obtain sig t where r: "New s = Inr (sig, t)" by (cases r) auto
    then have "init (snd (alloc_Signal s)) (fst (alloc_Signal s)) = Inr t"
      by (auto simp: New_def split: prod.splits sum.splits)
    from frame_init[OF this] have "procs t = procs s" by (simp add: alloc_Signal_def)
    with Call_New r n show ?thesis by (simp add: settle_def)
  qed
next
  case Call_Zero
  with n show ?thesis by (simp add: alloc_Signal_def)
next
  case (Call_Done sig)
  show ?thesis
  proof (cases "Done s sig")
    case (Inl p)
    with Call_Done n show ?thesis by (simp add: settle_def procs_crash)
  next
    case (Inr r)
    then obtain c t where r: "Done s sig = Inr (c, t)" by (cases r) auto
    from frame_Done[OF this] Call_Done r n show ?thesis by (simp add: settle_def)
  qed
next
  case (Call_Cancel sig)
  show ?thesis
  proof (cases "Cancel s sig")
    case (Inl p)
    with Call_Cancel n show ?thesis by (simp add: settle_def procs_crash)
  next
    case (Inr t)
    from frame_Cancel[OF this] Call_Cancel Inr n show ?thesis by (simp add: settle_def)
  qed
next
  case (Call_Timeout sig d)
  with n show ?thesis by (simp add: Timeout_def spawn_def nth_append)
next
  case (Call_Deadline sig t)
  with n show ?thesis by (simp add: Deadline_def Timeout_def spawn_def nth_append)
next
  case (Call_Propagate sig parent)
  with n show ?thesis by (simp add: Propagate_def spawn_def nth_append)
next
  case (Call_Promote ctx)
  with n show ?thesis
    by (simp add: Promote_def WithCancel_def make_chan_def spawn_def nth_append)
next
  case (Call_Release f)
  obtain k where f: "f = CancelFunc k" by (cases f)
  show ?thesis
  proof (cases "std_cancel s k")
    case (Inl p)
    with Call_Release f n show ?thesis by (simp add: settle_def call_def procs_crash)
  next
    case (Inr t)
    from frame_std_cancel[OF this] Call_Release f Inr n show ?thesis
      by (simp add: settle_def call_def)
  qed
next
  case (Go_Cancel sig)
  with n show ?thesis by (simp add: spawn_def nth_append)
next
  case (Sched i k)
  with e have ne: "i \<noteq> n" by auto
  show ?thesis
  proof (cases "i < length (procs s) \<and> k < length (gstep s (procs s ! i))")
    case False
    with Sched n show ?thesis by (auto simp: sched_def)
  next
    case True
    show ?thesis
    proof (cases "gstep s (procs s ! i) ! k")
      case (Inl p)
      with Sched True n show ?thesis by (simp add: sched_def procs_crash)
    next
      case (Inr r)
      obtain t g' where r: "r = (t, g')" by (cases r)
      with Inr True have "Inr (t, g') \<in> set (gstep s (procs s ! i))" by (metis nth_mem)
      from frame_gstep[OF this] Sched True Inr r n ne show ?thesis
        by (simp add: sched_def)
    qed
  qed
next
  case (Tick d)
  with n show ?thesis by simp
qed

lemma trigger_valid_evolves: "evolves s t \<Longrightarrow> trigger_valid s tr \<Longrightarrow> trigger_valid t tr"
  by (cases tr) (auto simp: trigger_valid_def intro: ctx_valid_evolves)

lemma serves_exec:
  assumes ok: "world_ok s" and ve: "valid_event s e" and n: "n < length (procs s)"
    and tv: "trigger_valid s tr" and sv: "serves s tr tgt (procs s ! n)"
  shows "serves (exec s e) tr tgt (procs (exec s e) ! n) \<and> n < length (procs (exec s e))"
proof (cases "fault s = None")
  case False
  then have "exec s e = s" by (auto simp: exec_def)
  with sv n show ?thesis by simp
next
  case nf: True
  have g: "gor_ok s (procs s ! n)" using world_okD(4)[OF ok n] .
  show ?thesis
  proof (cases "\<exists>k. e = Sched n k \<and> k < length (gstep s (procs s ! n))")
    case True
    then obtain k where k: "e = Sched n k" "k < length (gstep s (procs s ! n))" by blast
    then have mem: "gstep s (procs s ! n) ! k \<in> set (gstep s (procs s ! n))" by simp
    from world_ok_gstep[OF ok g mem] obtain t g' where
      t: "gstep s (procs s ! n) ! k = Inr (t, g')" "procs t = procs s" by blast
    with mem have mem': "Inr (t, g') \<in> set (gstep s (procs s ! n))" by simp
    let ?s' = "t\<lparr>procs := (procs t)[n := g']\<rparr>"
    have ex: "exec s e = ?s'" using nf k n t(1) by (simp add: exec_def sched_def)
    have "serves t tr tgt g'" using ok g tv sv mem' by (rule serves_gstep)
    then have "serves ?s' tr tgt g'" by (simp add: serves_cong[of ?s' t])
    with ex t(2) n show ?thesis by simp
  next
    case False
    have same: "procs (exec1 s e) ! n = procs s ! n \<and> n < length (procs (exec1 s e))"
    proof (cases "\<exists>k. e = Sched n k")
      case True
      with False n show ?thesis by (auto simp: sched_def)
    next
      case False
      then show ?thesis by (intro procs_exec1[OF n]) blast
    qed
    have "serves (exec1 s e) tr tgt (procs s ! n)"
      using ok evolves_exec1 g tv sv by (rule serves_evolves)
    with same nf show ?thesis by (simp add: exec_def)
  qed
qed

lemma serves_run:
  "world_ok s \<Longrightarrow> valid_run s es \<Longrightarrow> n < length (procs s) \<Longrightarrow> trigger_valid s tr \<Longrightarrow>
   serves s tr tgt (procs s ! n) \<Longrightarrow>
   serves (run s es) tr tgt (procs (run s es) ! n) \<and> n < length (procs (run s es))"
proof (induction es arbitrary: s)
  case Nil
  then show ?case by simp
next
  case (Cons e es)
  from Cons.prems have ve: "valid_event s e" "valid_run (exec s e) es" by simp_all
  from world_ok_exec[OF Cons.prems(1) ve(1)] have ok': "world_ok (exec s e)" by simp
  from serves_exec[OF Cons.prems(1) ve(1) Cons.prems(3,4,5)]
  have sv': "serves (exec s e) tr tgt (procs (exec s e) ! n)" "n < length (procs (exec s e))"
    by simp_all
  have tv': "trigger_valid (exec s e) tr"
    using evolves_exec Cons.prems(4) by (rule trigger_valid_evolves)
  from Cons.IH[OF ok' ve(2) sv'(2) tv' sv'(1)] show ?case by simp
qed

lemma rank_le_4: "rank g \<le> 4"
  by (cases g) simp_all

lemma fires_after:
  assumes ok: "world_ok s" and f: "fault s = None" and n: "n < length (procs s)"
    and tv: "trigger_valid s tr" and sv: "serves s tr tgt (procs s ! n)"
    and vr: "valid_run s es"
    and rd: "trigger_ready (run s es) tr \<or> ctx_terminated (run s es) tgt"
  shows "fires (run s es) n tgt"
proof -
  from world_ok_run[OF ok vr] f have 1: "world_ok (run s es)" "fault (run s es) = None" by simp_all
  from serves_run[OF ok vr n tv sv]
  have 2: "serves (run s es) tr tgt (procs (run s es) ! n)" "n < length (procs (run s es))"
    by simp_all
  have a: "ctx_terminated (run s es) tgt" if "procs (run s es) ! n = Exited"
    using 2(1) that by simp
  have b: "gstep (run s es) (procs (run s es) ! n) \<noteq> []" if "procs (run s es) ! n \<noteq> Exited"
    using 1(1) world_okD(4)[OF 1(1) 2(2)] 2(1) rd that by (rule gstep_enabled)
  from drain[OF tv 1 evolves_run 2(2) 2(1) rd rank_le_4]
  have "settles (run s es) n tgt" by (simp add: settles_def)
  with a b show ?thesis by (simp add: fires_def)
qed

lemma reachable_ok:
  "valid_run world0 es \<Longrightarrow> world_ok (run world0 es) \<and> fault (run world0 es) = None"
  using world_ok_run[of world0 es] by (simp add: world_ok_def world0_def separate_def)

lemma chan_in_range:
  assumes "world_ok s" "ctx_valid s P" "chan_of s P = Some c"
  shows "c < length (chans s)"
proof (cases P)
  case (SignalCtx p)
  with assms(2,3) have "p < length (sigs s)" "done_ch (sigs s ! p) = Some c"
    by (simp_all add: ctx_valid_def chan_of_def)
  with world_okD(1)[OF assms(1), of p] show ?thesis by (simp add: sig_ok_def)
next
  case (StdCtx k)
  with assms(2,3) have "k < length (ctxs s)" "cdone (ctxs s ! k) = c"
    by (simp_all add: ctx_valid_def chan_of_def)
  with world_okD(2)[OF assms(1), of k] show ?thesis by (auto simp: ctx_ok_def)
qed

lemma init_keeps:
  assumes ok: "world_ok s" and i: "init s q = Inr t"
  shows "ctx_terminated t P = ctx_terminated s P"
proof (cases "make_once (sigs s ! q)")
  case True
  with i show ?thesis by (auto simp: init_def split: if_splits)
next
  case False
  from i have q: "q < length (sigs s)" by (auto simp: init_def split: if_splits)
  from init_fresh[OF q False] i
  have t: "t = s\<lparr>chans := chans s @ [False],
              sigs := (sigs s)[q := (sigs s ! q)\<lparr>done_ch := Some (length (chans s)), make_once := True\<rparr>]\<rparr>"
    by simp
  from world_okD(1)[OF ok q] False have none: "done_ch (sigs s ! q) = None"
    by (auto simp: sig_ok_def split: option.splits)
  show ?thesis
  proof (cases "P = SignalCtx q")
    case True
    with q none show ?thesis
      by (simp add: t ctx_terminated_def terminated_def ready_def)
  next
    case ne: False
    have v: "ctx_valid t P = ctx_valid s P"
      by (simp add: t ctx_valid_def split: Context.splits)
    have c: "chan_of t P = chan_of s P"
      using ne by (cases P) (auto simp: t chan_of_def)
    show ?thesis
    proof (cases "ctx_valid s P")
      case False
      with v show ?thesis by (simp add: ctx_terminated_chan)
    next
      case True
      show ?thesis
      proof (cases "chan_of s P")
        case None
        with v c show ?thesis by (simp add: ctx_terminated_chan ready_def)
      next
        case (Some x)
        from chan_in_range[OF ok True Some] have "x < length (chans s)" .
        with v c Some show ?thesis by (simp add: ctx_terminated_chan ready_def t nth_append)
      qed
    qed
  qed
qed

lemma close_Do_keeps:
  assumes ok: "world_ok s" and i: "close_Do s C = Inr t" and ne: "P \<noteq> SignalCtx C"
  shows "ctx_terminated t P = ctx_terminated s P"
proof (cases "close_once (sigs s ! C)")
  case True
  with i show ?thesis by (auto simp: close_Do_def split: if_splits)
next
  case False
  from i have C: "C < length (sigs s)" by (auto simp: close_Do_def split: if_splits)
  from i False C obtain c where c: "done_ch (sigs s ! C) = Some c"
    by (auto simp: close_Do_def close_chan_def split: option.splits)
  from close_Do_open[OF world_okD(1)[OF ok C] c False] i
  have t: "t = s\<lparr>sigs := (sigs s)[C := (sigs s ! C)\<lparr>close_once := True\<rparr>],
                  chans := (chans s)[c := True], closes := closes s + 1\<rparr>" by simp
  have v: "ctx_valid t P = ctx_valid s P"
    by (simp add: t ctx_valid_def split: Context.splits)
  have ch: "chan_of t P = chan_of s P"
    using C by (cases P) (auto simp: t chan_of_def nth_list_update)
  show ?thesis
  proof (cases "ctx_valid s P")
    case False
    with v show ?thesis by (simp add: ctx_terminated_chan)
  next
    case True
    have "chan_of s P \<noteq> Some c"
    proof (cases P)
      case (SignalCtx p)
      with True ne have "p < length (sigs s)" "p \<noteq> C" by (simp_all add: ctx_valid_def)
      from separateD(1)[OF world_okD(3)[OF ok] this(1) C this(2) c] SignalCtx
      show ?thesis by (simp add: chan_of_def)
    next
      case (StdCtx k)
      with True have "k < length (ctxs s)" by (simp add: ctx_valid_def)
      from separateD(2)[OF world_okD(3)[OF ok] C this] c StdCtx
      show ?thesis by (auto simp: chan_of_def)
    qed
    then have "ready t (chan_of s P) = ready s (chan_of s P)"
      by (cases "chan_of s P") (auto simp: ready_def t nth_list_update)
    with v ch show ?thesis by (simp add: ctx_terminated_chan)
  qed
qed

lemma std_cancel_keeps:
  assumes ok: "world_ok s" and i: "std_cancel s k = Inr t" and ne: "P \<noteq> StdCtx k"
  shows "ctx_terminated t P = ctx_terminated s P"
proof (cases "cerr (ctxs s ! k)")
  case True
  with i show ?thesis by (auto simp: std_cancel_def split: if_splits)
next
  case False
  from i have k: "k < length (ctxs s)" by (auto simp: std_cancel_def split: if_splits)
  let ?c = "cdone (ctxs s ! k)"
  from i False k
  have t: "t = s\<lparr>ctxs := (ctxs s)[k := (ctxs s ! k)\<lparr>cerr := True\<rparr>],
                  chans := (chans s)[?c := True], closes := closes s + 1\<rparr>"
    by (auto simp: std_cancel_def close_chan_def split: if_splits)
  have v: "ctx_valid t P = ctx_valid s P"
    by (simp add: t ctx_valid_def split: Context.splits)
  have ch: "chan_of t P = chan_of s P"
    using k by (cases P) (auto simp: t chan_of_def nth_list_update)
  show ?thesis
  proof (cases "ctx_valid s P")
    case False
    with v show ?thesis by (simp add: ctx_terminated_chan)
  next
    case True
    have "chan_of s P \<noteq> Some ?c"
    proof (cases P)
      case (SignalCtx p)
      with True have "p < length (sigs s)" by (simp add: ctx_valid_def)
      from separateD(2)[OF world_okD(3)[OF ok] this k] SignalCtx
      show ?thesis by (simp add: chan_of_def)
    next
      case (StdCtx l)
      with True ne have "l < length (ctxs s)" "l \<noteq> k" by (simp_all add: ctx_valid_def)
      from separateD(3)[OF world_okD(3)[OF ok] this(1) k this(2)] StdCtx
      show ?thesis by (simp add: chan_of_def)
    qed
    then have "ready t (chan_of s P) = ready s (chan_of s P)"
      by (cases "chan_of s P") (auto simp: ready_def t nth_list_update)
    with v ch show ?thesis by (simp add: ctx_terminated_chan)
  qed
qed

lemma Done_keeps:
  "world_ok s \<Longrightarrow> Done s q = Inr (c, t) \<Longrightarrow> ctx_terminated t P = ctx_terminated s P"
  using Done_result(1) init_keeps by blast

lemma ctx_Done_keeps:
  "world_ok s \<Longrightarrow> ctx_Done s ctx = Inr (c, t) \<Longrightarrow> ctx_terminated t P = ctx_terminated s P"
  by (cases ctx) (auto simp: ctx_Done_def Done_keeps split: if_splits)

lemma Cancel_keeps:
  assumes ok: "world_ok s" and c: "Cancel s C = Inr t" and ne: "P \<noteq> SignalCtx C"
  shows "ctx_terminated t P = ctx_terminated s P"
proof -
  from c obtain a where a: "init s C = Inr a" "close_Do a C = Inr t"
    by (auto simp: Cancel_def split: sum.splits)
  from a(1) have "C < length (sigs s)" by (auto simp: init_def split: if_splits)
  from world_ok_init[OF ok this] a(1) have "world_ok a" by auto
  from close_Do_keeps[OF this a(2) ne] init_keeps[OF ok a(1)] show ?thesis by simp
qed


lemma ctx_terminated_procs: "ctx_terminated (s\<lparr>procs := ps\<rparr>) P = ctx_terminated s P"
  by (rule ctx_terminated_cong) simp_all

lemma ctx_terminated_crash: "ctx_terminated (crash s p) P = ctx_terminated s P"
  by (rule ctx_terminated_cong) (simp_all add: crash_def)



lemma world_ok_world0: "world_ok world0"
  by (simp add: world_ok_def world0_def separate_def)

lemma valid_run_append: "valid_run s (es @ fs) = (valid_run s es \<and> valid_run (run s es) fs)"
  by (induction es arbitrary: s) simp_all

lemma Until_elapsed: "t \<le> clock s \<Longrightarrow> Until s t \<le> 0"
  by (simp add: Until_def Sub_def minDuration_def maxDuration_def)

lemma Timeout_elapsed:
  assumes ok: "world_ok s" and f: "fault s = None" and v: "sig < length (sigs s)"
    and d: "d \<le> 0" and vr: "valid_run (snd (Timeout s sig d)) es"
  shows "fault (run (snd (Timeout s sig d)) es) = None \<and>
         fires (run (snd (Timeout s sig d)) es) (length (procs s)) (SignalCtx sig)"
proof -
  let ?s1 = "snd (Timeout s sig d)"
  have s1: "?s1 = spawn s (TimeoutGo sig d)" by (simp add: Timeout_def)
  have ok1: "world_ok ?s1" unfolding s1 using ok v by (intro world_ok_spawn) simp_all
  have f1: "fault ?s1 = None" using f by (simp add: s1 spawn_def)
  have n: "length (procs s) < length (procs ?s1)" by (simp add: s1 spawn_def)
  have g: "procs ?s1 ! length (procs s) = TimeoutGo sig d" by (simp add: s1 spawn_def)
  have sv: "serves ?s1 Elapsed (SignalCtx sig) (procs ?s1 ! length (procs s))"
    using d by (simp add: g)
  have tv: "trigger_valid ?s1 Elapsed" by (simp add: trigger_valid_def)
  have rd: "trigger_ready (run ?s1 es) Elapsed \<or> ctx_terminated (run ?s1 es) (SignalCtx sig)"
    by (simp add: trigger_ready_def)
  from fires_after[OF ok1 f1 n tv sv vr rd] world_ok_run[OF ok1 vr] f1
  show ?thesis by simp
qed

lemma Promote_world:
  assumes ok: "world_ok s" and f: "fault s = None" and S: "ctx_valid s S"
  shows "fst (Promote s S) = (StdCtx (length (ctxs s)), CancelFunc (length (ctxs s)))"
    "world_ok (snd (Promote s S))" "fault (snd (Promote s S)) = None"
    "length (procs s) < length (procs (snd (Promote s S)))"
    "serves (snd (Promote s S)) (Source S) (StdCtx (length (ctxs s)))
       (procs (snd (Promote s S)) ! length (procs s))"
    "trigger_valid (snd (Promote s S)) (Source S)"
    "length (ctxs s) < length (ctxs (snd (Promote s S)))"
    "\<not> ctx_terminated (snd (Promote s S)) (StdCtx (length (ctxs s)))"
    "S \<noteq> StdCtx (length (ctxs s))"
proof -
  let ?k = "length (ctxs s)"
  let ?w = "snd (WithCancel s)"
  have w: "?w = s\<lparr>chans := chans s @ [False],
      ctxs := ctxs s @ [\<lparr>cdone = length (chans s), cerr = False\<rparr>]\<rparr>" "fst (WithCancel s) = ?k"
    by (simp_all add: WithCancel_def make_chan_def)
  have p: "snd (Promote s S) = spawn ?w (PromoteGo S ?k)"
    by (simp add: Promote_def split: prod.splits) (simp add: WithCancel_def make_chan_def)
  show "fst (Promote s S) = (StdCtx ?k, CancelFunc ?k)"
    by (simp add: Promote_def split: prod.splits) (simp add: WithCancel_def make_chan_def)
  have okw: "world_ok ?w" using ok by (rule world_ok_WithCancel)
  have Sw: "ctx_valid ?w S" using evolves_WithCancel S by (rule ctx_valid_evolves)
  have kw: "?k < length (ctxs ?w)" by (simp add: w)
  show "world_ok (snd (Promote s S))"
    unfolding p using okw Sw kw by (intro world_ok_spawn) simp_all
  show "fault (snd (Promote s S)) = None" using f by (simp add: p spawn_def w)
  show "length (procs s) < length (procs (snd (Promote s S)))" by (simp add: p spawn_def w)
  show "serves (snd (Promote s S)) (Source S) (StdCtx ?k) (procs (snd (Promote s S)) ! length (procs s))"
    by (simp add: p spawn_def w)
  show "trigger_valid (snd (Promote s S)) (Source S)"
    using Sw by (simp add: trigger_valid_def p spawn_def ctx_valid_def split: Context.splits)
  show "?k < length (ctxs (snd (Promote s S)))" by (simp add: p spawn_def w)
  show "\<not> ctx_terminated (snd (Promote s S)) (StdCtx ?k)"
    by (simp add: p spawn_def w ctx_terminated_def ready_def)
  show "S \<noteq> StdCtx ?k" using S by (auto simp: ctx_valid_def)
qed

lemma release_ok:
  assumes ok: "world_ok u" and f: "fault u = None" and k: "k < length (ctxs u)"
  shows "world_ok (release u (CancelFunc k))" "fault (release u (CancelFunc k)) = None"
    "ctx_terminated (release u (CancelFunc k)) (StdCtx k)"
    "P \<noteq> StdCtx k \<Longrightarrow> ctx_terminated (release u (CancelFunc k)) P = ctx_terminated u P"
    "valid_event u (Call_Release (CancelFunc k))"
proof -
  from world_ok_std_cancel[OF ok k] obtain t where t: "std_cancel u k = Inr t" "world_ok t"
    "fault t = fault u" "ctx_terminated t (StdCtx k)" by blast
  then have r: "release u (CancelFunc k) = t"
    using f by (simp add: release_def exec_def settle_def call_def)
  from t f show "world_ok (release u (CancelFunc k))" "fault (release u (CancelFunc k)) = None"
    "ctx_terminated (release u (CancelFunc k)) (StdCtx k)" by (simp_all add: r)
  show "ctx_terminated (release u (CancelFunc k)) P = ctx_terminated u P" if "P \<noteq> StdCtx k"
    unfolding r using ok t(1) that by (rule std_cancel_keeps)
  show "valid_event u (Call_Release (CancelFunc k))" using k by simp
qed

lemma fires_released:
  assumes ok: "world_ok s1" and f: "fault s1 = None" and n: "n < length (procs s1)"
    and tv: "trigger_valid s1 tr" and sv: "serves s1 tr (StdCtx k) (procs s1 ! n)"
    and k: "k < length (ctxs s1)"
    and vr: "valid_run s1 es" and vr': "valid_run (release (run s1 es) (CancelFunc k)) es'"
  shows "fault (run (release (run s1 es) (CancelFunc k)) es') = None \<and>
         fires (run (release (run s1 es) (CancelFunc k)) es') n (StdCtx k) \<and>
         ctxs (run (release (run s1 es) (CancelFunc k)) es') ! k =
           ctxs (release (run s1 es) (CancelFunc k)) ! k"
proof -
  let ?u = "run s1 es"
  let ?r = "release ?u (CancelFunc k)"
  let ?all = "es @ Call_Release (CancelFunc k) # es'"
  from world_ok_run[OF ok vr] f have u: "world_ok ?u" "fault ?u = None" by simp_all
  from evolves_run[of s1 es] k have ku: "k < length (ctxs ?u)" by (simp add: evolves_def)
  note r = release_ok[OF u ku]
  have run_all: "run s1 ?all = run ?r es'" by (simp add: run_append release_def)
  have vall: "valid_run s1 ?all"
    using vr vr' r(5) by (simp add: valid_run_append release_def)
  from world_ok_run[OF r(1) vr'] r(2) have f': "fault (run ?r es') = None" by simp
  have "ctx_terminated (run ?r es') (StdCtx k)"
    using r(1) evolves_run r(3) by (rule ctx_terminated_evolves)
  then have "trigger_ready (run s1 ?all) tr \<or> ctx_terminated (run s1 ?all) (StdCtx k)"
    by (simp add: run_all)
  from fires_after[OF ok f n tv sv vall this]
  have st: "fires (run ?r es') n (StdCtx k)" by (simp add: run_all)
  from evolves_run[of ?u "[Call_Release (CancelFunc k)]"] ku
  have kr: "k < length (ctxs ?r)" by (simp add: evolves_def release_def)
  from r(3) world_okD(2)[OF r(1) kr] have "cerr (ctxs ?r ! k)"
    by (simp add: ctx_terminated_def ready_def ctx_ok_def)
  with evolves_run[of ?r es'] kr
  have "cdone (ctxs (run ?r es') ! k) = cdone (ctxs ?r ! k)" "cerr (ctxs (run ?r es') ! k) = cerr (ctxs ?r ! k)"
    by (simp_all add: evolves_def)
  then have "ctxs (run ?r es') ! k = ctxs ?r ! k" by simp
  with f' st show ?thesis by simp
qed

section \<open>Goroutines of Cancel return\<close>

lemma gstep_in_Cancel_length: "in_Cancel sig g \<Longrightarrow> length (gstep st g) \<le> 1"
  by (auto simp: in_Cancel_def split: sum.splits)

lemma rank_zero: "rank g = 0 \<Longrightarrow> g = Exited"
  by (cases g) simp_all

lemma cancelling_rank_step:
  assumes ok: "sig_ok s sig" and f: "fault s = None" and inv: "cancelling s sig N st"
    and e: "runs_from (length (procs s)) e"
    and i: "length (procs s) \<le> i" "i < length (procs s) + N"
  shows "rank (procs (exec st e) ! i) = rank (procs st ! i) - (if e = Sched i 0 then 1 else 0)"
proof -
  from e obtain j k where e': "e = Sched j k" "length (procs s) \<le> j" by (cases e) auto
  from inv have nf: "fault st = None" and len: "length (procs st) = length (procs s) + N"
    and all: "list_all (in_Cancel sig) (drop (length (procs s)) (procs st))"
    by (simp_all add: cancelling_def)
  from i len have il: "i < length (procs st)" by simp
  have ex: "exec st e = sched st j k" using nf e' by (simp add: exec_def)
  from all i il have g: "in_Cancel sig (procs st ! i)"
    by (auto simp: list_all_length dest!: spec[of _ "i - length (procs s)"])
  show ?thesis
  proof (cases "j = i")
    case False
    then have "\<And>k'. e \<noteq> Sched i k'" using e' by simp
    from procs_exec1[OF il this] False e' nf show ?thesis by (simp add: exec_def)
  next
    case ji: True
    show ?thesis
    proof (cases "k = 0")
      case False
      with gstep_in_Cancel_length[OF g, of st] have "\<not> k < length (gstep st (procs st ! i))" by simp
      with ji have "sched st j k = st" by (simp add: sched_def)
      with ex have "exec st e = st" by simp
      moreover from False e' have "e \<noteq> Sched i 0" by simp
      ultimately show ?thesis by simp
    next
      case k0: True
      have inv': "cancelling s sig N (sched st i 0)"
        using ok f inv i(1) by (rule cancelling_sched)
      then have nf': "fault (sched st i 0) = None" by (simp add: cancelling_def)
      from g consider "procs st ! i = CancelCall sig" | "procs st ! i = CancelClose sig"
        | "procs st ! i = Exited" by (auto simp: in_Cancel_def)
      then show ?thesis
      proof cases
        case 1
        show ?thesis
        proof (cases "init st sig")
          case (Inl p)
          with 1 il nf' show ?thesis by (simp add: sched_def crash_def)
        next
          case (Inr t)
          from frame_init[OF Inr] have "procs t = procs st" by simp
          with 1 il Inr ji k0 e' show ?thesis by (simp add: exec_def nf sched_def)
        qed
      next
        case 2
        show ?thesis
        proof (cases "close_Do st sig")
          case (Inl p)
          with 2 il nf' show ?thesis by (simp add: sched_def crash_def)
        next
          case (Inr t)
          from frame_close_Do[OF Inr] have "procs t = procs st" by simp
          with 2 il Inr ji k0 e' show ?thesis by (simp add: exec_def nf sched_def)
        qed
      next
        case 3
        with il ji k0 e' show ?thesis by (simp add: exec_def nf sched_def)
      qed
    qed
  qed
qed

lemma cancelling_rank_run:
  assumes ok: "sig_ok s sig" and f: "fault s = None"
    and i: "length (procs s) \<le> i" "i < length (procs s) + N"
  shows "cancelling s sig N st \<Longrightarrow> list_all (runs_from (length (procs s))) es \<Longrightarrow>
         rank (procs (run st es) ! i) = rank (procs st ! i) - count_list es (Sched i 0)"
proof (induction es arbitrary: st)
  case Nil
  then show ?case by simp
next
  case (Cons e es)
  from Cons.prems(2) have e: "runs_from (length (procs s)) e"
    and es: "list_all (runs_from (length (procs s))) es" by simp_all
  from e obtain j k where e': "e = Sched j k" "length (procs s) \<le> j" by (cases e) auto
  from Cons.prems(1) have "fault st = None" by (simp add: cancelling_def)
  with cancelling_sched[OF ok f Cons.prems(1) e'(2), of k] e'
  have inv': "cancelling s sig N (exec st e)" by (simp add: exec_def)
  from Cons.IH[OF inv' es] cancelling_rank_step[OF ok f Cons.prems(1) e i]
  show ?case by simp
qed

lemma cancelling_all_return:
  assumes ok: "sig_ok s sig" and f: "fault s = None"
    and es: "list_all (runs_from (length (procs s))) es"
    and fair: "list_all (\<lambda>i. 2 \<le> count_list es (Sched i 0)) [length (procs s) ..< length (procs s) + N]"
  shows "list_all (\<lambda>g. g = Exited)
           (drop (length (procs s)) (procs (run (run s (replicate N (Go_Cancel sig))) es)))"
proof -
  let ?n = "length (procs s)"
  let ?st = "run s (replicate N (Go_Cancel sig))"
  let ?t = "run ?st es"
  have inv: "cancelling s sig N ?st" using f by (rule cancelling_start)
  have inv': "cancelling s sig N ?t" using inv es by (rule cancelling_run[OF ok f])
  then have len: "length (procs ?t) = ?n + N" by (simp add: cancelling_def)
  have "drop ?n (procs ?t) ! j = Exited" if j: "j < N" for j
  proof -
    have i: "?n \<le> ?n + j" "?n + j < ?n + N" using j by simp_all
    from fair j have c: "2 \<le> count_list es (Sched (?n + j) 0)"
      by (simp add: list_all_iff)
    have "procs ?st ! (?n + j) = CancelCall sig"
      using j by (simp add: run_Go_Cancel[OF f] nth_append)
    with cancelling_rank_run[OF ok f i inv es] c have "rank (procs ?t ! (?n + j)) = 0" by simp
    then have "procs ?t ! (?n + j) = Exited" by (rule rank_zero)
    with len j show ?thesis by simp
  qed
  with len show ?thesis by (simp add: list_all_length)
qed

section \<open>A context is cancelled only by what aims at it\<close>

lemma alloc_keeps: "ctx_terminated (snd (alloc_Signal s)) P = ctx_terminated s P"
proof (cases P)
  case (SignalCtx p)
  consider "p < length (sigs s)" | "p = length (sigs s)" | "length (sigs s) < p" by linarith
  then show ?thesis
    by cases (simp_all add: SignalCtx alloc_Signal_def ctx_terminated_def terminated_def
         ready_def nth_append zero_Signal_def cong: option.case_cong)
next
  case (StdCtx k)
  then show ?thesis by (simp add: alloc_Signal_def ctx_terminated_def ready_def)
qed

lemma WithCancel_keeps:
  assumes ok: "world_ok s"
  shows "ctx_terminated (snd (WithCancel s)) P = ctx_terminated s P"
proof -
  let ?t = "s\<lparr>chans := chans s @ [False], ctxs := ctxs s @ [\<lparr>cdone = length (chans s), cerr = False\<rparr>]\<rparr>"
  have eq: "snd (WithCancel s) = ?t" by (simp add: WithCancel_def make_chan_def)
  show ?thesis
  proof (cases P)
    case (SignalCtx p)
    show ?thesis
    proof (cases "p < length (sigs s)")
      case False
      then show ?thesis by (simp add: eq SignalCtx ctx_terminated_def terminated_def)
    next
      case True
      show ?thesis
      proof (cases "done_ch (sigs s ! p)")
        case None
        with True show ?thesis by (simp add: eq SignalCtx ctx_terminated_def terminated_def ready_def)
      next
        case (Some c)
        with world_okD(1)[OF ok True] have "c < length (chans s)" by (simp add: sig_ok_def)
        with True Some show ?thesis
          by (simp add: eq SignalCtx ctx_terminated_def terminated_def ready_def nth_append)
      qed
    qed
  next
    case (StdCtx k)
    consider "k < length (ctxs s)" | "k = length (ctxs s)" | "length (ctxs s) < k" by linarith
    then show ?thesis
    proof cases
      case 1
      with world_okD(2)[OF ok 1] show ?thesis
        by (simp add: eq StdCtx ctx_terminated_def ready_def nth_append ctx_ok_def)
    next
      case 2
      then show ?thesis by (simp add: eq StdCtx ctx_terminated_def ready_def)
    next
      case 3
      then show ?thesis by (simp add: eq StdCtx ctx_terminated_def ready_def)
    qed
  qed
qed

lemma untargeted_gstep:
  assumes ok: "world_ok s" and g: "gor_ok s g" and tg: "target g \<noteq> Some P"
    and st: "Inr (t, g') \<in> set (gstep s g)"
  shows "ctx_terminated t P = ctx_terminated s P"
  using st
proof (cases rule: gstepE)
  case (TimeoutGo sig d c)
  with ok show ?thesis by (simp add: Done_keeps)
next
  case (PropagateGo sig parent pc s1 c)
  with g have "ctx_valid s parent" by simp
  from world_ok_ctx_Done[OF ok this] PropagateGo(2) have "world_ok s1" by auto
  from Done_keeps[OF this PropagateGo(3)] ctx_Done_keeps[OF ok PropagateGo(2)]
  show ?thesis by simp
next
  case (PromoteGo ctx k pc s1 c)
  with g have "ctx_valid s ctx" by simp
  from world_ok_ctx_Done[OF ok this] PromoteGo(2) have "world_ok s1" by auto
  from ctx_Done_keeps[OF this PromoteGo(3)] ctx_Done_keeps[OF ok PromoteGo(2)]
  show ?thesis by simp
next
  case (CancelCall sig)
  with ok show ?thesis by (simp add: init_keeps)
next
  case (CancelClose sig)
  with tg have "P \<noteq> SignalCtx sig" by auto
  with CancelClose ok show ?thesis by (simp add: close_Do_keeps)
next
  case (StdCancelCall k)
  with tg have "P \<noteq> StdCtx k" by auto
  with StdCancelCall ok show ?thesis by (simp add: std_cancel_keeps)
qed simp_all

lemma target_gstep: "Inr (t, g') \<in> set (gstep s g) \<Longrightarrow> target g' = target g \<or> target g' = None"
  by (erule gstepE) auto

lemma sched_shape:
  assumes ok: "world_ok s"
  shows "sched s i k = s \<or>
     (\<exists>t g'. i < length (procs s) \<and> Inr (t, g') \<in> set (gstep s (procs s ! i)) \<and>
        sched s i k = t\<lparr>procs := (procs s)[i := g']\<rparr>)"
proof (cases "i < length (procs s) \<and> k < length (gstep s (procs s ! i))")
  case False
  then show ?thesis by (auto simp: sched_def)
next
  case True
  then have mem: "gstep s (procs s ! i) ! k \<in> set (gstep s (procs s ! i))" by simp
  from world_ok_gstep[OF ok world_okD(4)[OF ok] mem] True obtain t g' where
    t: "gstep s (procs s ! i) ! k = Inr (t, g')" "procs t = procs s" by blast
  with mem have "Inr (t, g') \<in> set (gstep s (procs s ! i))" by simp
  moreover have "sched s i k = t\<lparr>procs := (procs s)[i := g']\<rparr>"
    using True t by (simp add: sched_def)
  ultimately show ?thesis using True by blast
qed

lemma unaimed_keeps:
  assumes ok: "world_ok s" and ve: "valid_event s e" and na: "\<not> aims_at P e"
    and nt: "\<And>i k. e = Sched i k \<Longrightarrow> i < length (procs s) \<Longrightarrow> target (procs s ! i) \<noteq> Some P"
  shows "ctx_terminated (exec s e) P = ctx_terminated s P"
proof (cases "fault s = None")
  case False
  then have "exec s e = s" by (auto simp: exec_def)
  then show ?thesis by simp
next
  case nf: True
  show ?thesis
  proof (cases e)
    case Call_New
    let ?z = "snd (alloc_Signal s)"
    have okz: "world_ok ?z" using ok by (rule world_ok_alloc)
    have "length (sigs s) < length (sigs ?z)" by (simp add: alloc_Signal_def)
    from world_ok_init[OF okz this] obtain t where t: "init ?z (length (sigs s)) = Inr t" by blast
    then have "New s = Inr (length (sigs s), t)" by (simp add: New_def alloc_Signal_def)
    with init_keeps[OF okz t] alloc_keeps[of s P] Call_New nf show ?thesis
      by (simp add: exec_def settle_def)
  next
    case Call_Zero
    with alloc_keeps[of s P] nf show ?thesis by (simp add: exec_def)
  next
    case (Call_Done sig)
    with ve have "sig < length (sigs s)" by simp
    from world_ok_Done[OF ok this] obtain c t where t: "Done s sig = Inr (Some c, t)" by blast
    from Done_keeps[OF ok t] t Call_Done nf show ?thesis by (simp add: exec_def settle_def)
  next
    case (Call_Cancel sig)
    with ve na have v: "sig < length (sigs s)" "P \<noteq> SignalCtx sig" by simp_all
    from world_ok_Cancel[OF ok v(1)] obtain t where t: "Cancel s sig = Inr t" by blast
    from Cancel_keeps[OF ok t v(2)] t Call_Cancel nf show ?thesis
      by (simp add: exec_def settle_def)
  next
    case (Call_Timeout sig d)
    with nf show ?thesis by (simp add: exec_def Timeout_def spawn_def ctx_terminated_procs)
  next
    case (Call_Deadline sig d)
    with nf show ?thesis
      by (simp add: exec_def Deadline_def Timeout_def spawn_def ctx_terminated_procs)
  next
    case (Call_Propagate sig parent)
    with nf show ?thesis by (simp add: exec_def Propagate_def spawn_def ctx_terminated_procs)
  next
    case (Call_Promote ctx)
    have "snd (Promote s ctx) = spawn (snd (WithCancel s)) (PromoteGo ctx (fst (WithCancel s)))"
      by (simp add: Promote_def split: prod.splits)
    with WithCancel_keeps[OF ok, of P] Call_Promote nf show ?thesis
      by (simp add: exec_def spawn_def ctx_terminated_procs)
  next
    case (Call_Release f)
    obtain k where f: "f = CancelFunc k" by (cases f)
    with ve na Call_Release have v: "k < length (ctxs s)" "P \<noteq> StdCtx k" by simp_all
    from world_ok_std_cancel[OF ok v(1)] obtain t where t: "std_cancel s k = Inr t" by blast
    from std_cancel_keeps[OF ok t v(2)] t Call_Release f nf show ?thesis
      by (simp add: exec_def settle_def call_def)
  next
    case (Go_Cancel sig)
    with nf show ?thesis by (simp add: exec_def spawn_def ctx_terminated_procs)
  next
    case (Sched i k)
    from sched_shape[OF ok, of i k] show ?thesis
    proof (elim disjE exE conjE)
      assume "sched s i k = s"
      with Sched nf show ?thesis by (simp add: exec_def)
    next
      fix t g' assume i: "i < length (procs s)"
        and m: "Inr (t, g') \<in> set (gstep s (procs s ! i))"
        and sc: "sched s i k = t\<lparr>procs := (procs s)[i := g']\<rparr>"
      from untargeted_gstep[OF ok world_okD(4)[OF ok i] nt[OF Sched i] m] sc Sched nf
      show ?thesis by (simp add: exec_def ctx_terminated_procs)
    qed
  next
    case (Tick d)
    have "ctx_terminated (s\<lparr>clock := clock s + int d\<rparr>) P = ctx_terminated s P"
      by (rule ctx_terminated_cong) simp_all
    with Tick nf show ?thesis by (simp add: exec_def)
  qed
qed

lemma targets_exec:
  assumes ok: "world_ok s" and ve: "valid_event s e" and na: "\<not> aims_at P e"
    and pv: "ctx_valid s P" and i: "i < length (procs (exec s e))"
    and tg: "target (procs (exec s e) ! i) = Some P"
  shows "i < length (procs s) \<and> target (procs s ! i) = Some P"
proof (cases "fault s = None")
  case False
  then have "exec s e = s" by (auto simp: exec_def)
  with i tg show ?thesis by simp
next
  case nf: True
  have spawned: ?thesis if "exec s e = t\<lparr>procs := procs s @ [g]\<rparr>" "target g \<noteq> Some P" for t g
  proof (cases "i < length (procs s)")
    case True
    with that tg show ?thesis by (simp add: nth_append)
  next
    case False
    with i that(1) have "i = length (procs s)" by simp
    with that tg show ?thesis by simp
  qed
  have same: ?thesis if "procs (exec s e) = procs s"
    using that i tg by simp
  show ?thesis
  proof (cases e)
    case Call_New
    show ?thesis
    proof (rule same, cases "New s")
      case (Inl p)
      with Call_New nf show "procs (exec s e) = procs s" by (simp add: exec_def settle_def crash_def)
    next
      case (Inr r)
      then obtain sig t where r: "New s = Inr (sig, t)" by (cases r) auto
      then have "init (snd (alloc_Signal s)) (fst (alloc_Signal s)) = Inr t"
        by (auto simp: New_def split: prod.splits sum.splits)
      from frame_init[OF this] have "procs t = procs s" by (simp add: alloc_Signal_def)
      with Call_New r nf show "procs (exec s e) = procs s" by (simp add: exec_def settle_def)
    qed
  next
    case Call_Zero
    with nf show ?thesis by (intro same) (simp add: exec_def alloc_Signal_def)
  next
    case (Call_Done sig)
    show ?thesis
    proof (rule same, cases "Done s sig")
      case (Inl p)
      with Call_Done nf show "procs (exec s e) = procs s"
        by (simp add: exec_def settle_def crash_def)
    next
      case (Inr r)
      then obtain c t where r: "Done s sig = Inr (c, t)" by (cases r) auto
      from frame_Done[OF this] Call_Done r nf show "procs (exec s e) = procs s"
        by (simp add: exec_def settle_def)
    qed
  next
    case (Call_Cancel sig)
    show ?thesis
    proof (rule same, cases "Cancel s sig")
      case (Inl p)
      with Call_Cancel nf show "procs (exec s e) = procs s"
        by (simp add: exec_def settle_def crash_def)
    next
      case (Inr t)
      from frame_Cancel[OF this] Call_Cancel Inr nf show "procs (exec s e) = procs s"
        by (simp add: exec_def settle_def)
    qed
  next
    case (Call_Timeout sig d)
    with na nf show ?thesis
      by (intro spawned[where t=s and g="TimeoutGo sig d"]) (auto simp: exec_def Timeout_def spawn_def)
  next
    case (Call_Deadline sig d)
    with na nf show ?thesis
      by (intro spawned[where t=s and g="TimeoutGo sig (Until s d)"])
         (auto simp: exec_def Deadline_def Timeout_def spawn_def)
  next
    case (Call_Propagate sig parent)
    with na nf show ?thesis
      by (intro spawned[where t=s and g="PropagateGo sig parent"]) (auto simp: exec_def Propagate_def spawn_def)
  next
    case (Call_Promote ctx)
    have "exec s e = (snd (WithCancel s))\<lparr>procs := procs s @ [PromoteGo ctx (length (ctxs s))]\<rparr>"
      using Call_Promote nf
      by (simp add: exec_def Promote_def WithCancel_def make_chan_def spawn_def)
    moreover have "target (PromoteGo ctx (length (ctxs s))) \<noteq> Some P"
      using pv by (auto simp: ctx_valid_def)
    ultimately show ?thesis by (rule spawned)
  next
    case (Call_Release f)
    obtain k where f: "f = CancelFunc k" by (cases f)
    show ?thesis
    proof (rule same, cases "std_cancel s k")
      case (Inl p)
      with Call_Release f nf show "procs (exec s e) = procs s"
        by (simp add: exec_def settle_def call_def crash_def)
    next
      case (Inr t)
      from frame_std_cancel[OF this] Call_Release f Inr nf show "procs (exec s e) = procs s"
        by (simp add: exec_def settle_def call_def)
    qed
  next
    case (Go_Cancel sig)
    with na nf show ?thesis
      by (intro spawned[where t=s and g="CancelCall sig"]) (auto simp: exec_def spawn_def)
  next
    case (Sched j k)
    from sched_shape[OF ok, of j k] show ?thesis
    proof (elim disjE exE conjE)
      assume "sched s j k = s"
      with Sched nf show ?thesis by (intro same) (simp add: exec_def)
    next
      fix t g' assume j: "j < length (procs s)"
        and m: "Inr (t, g') \<in> set (gstep s (procs s ! j))"
        and sc: "sched s j k = t\<lparr>procs := (procs s)[j := g']\<rparr>"
      from sc Sched nf have ex: "procs (exec s e) = (procs s)[j := g']" by (simp add: exec_def)
      with i have il: "i < length (procs s)" by simp
      show ?thesis
      proof (cases "i = j")
        case True
        with ex tg j have "target g' = Some P" by simp
        with target_gstep[OF m] True il show ?thesis by auto
      next
        case False
        with ex tg il show ?thesis by simp
      qed
    qed
  next
    case (Tick d)
    with nf show ?thesis by (intro same) (simp add: exec_def)
  qed
qed



lemma target_valid: "gor_ok s g \<Longrightarrow> target g = Some P \<Longrightarrow> ctx_valid s P"
  by (cases g) (auto simp: ctx_valid_def)

lemma mirroring_cong:
  "sigs t = sigs s \<Longrightarrow> ctxs t = ctxs s \<Longrightarrow> chans t = chans s \<Longrightarrow>
   mirroring t S k g = mirroring s S k g"
  using ctx_terminated_cong[of t s S]
  by (cases g) (auto simp: watches_def made_def chan_of_def split: Context.splits)

lemma mirroring_evolves:
  assumes ok: "world_ok s" and ev: "evolves s t" and Sv: "ctx_valid s S"
    and m: "mirroring s S k g"
  shows "mirroring t S k g"
proof (cases g)
  case (PromoteSelect pc k' c)
  have "trigger_valid s (Source S)" using Sv by (simp add: trigger_valid_def)
  from watches_evolves[OF ev this] m PromoteSelect show ?thesis by simp
next
  case (StdCancelCall k')
  with m ctx_terminated_evolves[OF ok ev] show ?thesis by simp
qed (use m in simp_all)

lemma mirror_gstep:
  assumes ok: "world_ok s" and g: "gor_ok s g" and m: "mirroring s S k g"
    and Sv: "ctx_valid s S"
    and imp: "ctx_terminated s (StdCtx k) \<longrightarrow> ctx_terminated s S"
    and st: "Inr (t, g') \<in> set (gstep s g)"
  shows "mirroring t S k g' \<and> (ctx_terminated t (StdCtx k) \<longrightarrow> ctx_terminated t S)"
  using st
proof (cases rule: gstepE)
  case (PromoteGo ctx k' pc s1 c)
  with m have [simp]: "ctx = S" "k' = k" by simp_all
  from PromoteGo(3) have t: "t = s1" by (auto simp: ctx_Done_def split: if_splits)
  from ctx_Done_result(1,2)[OF PromoteGo(2)] have "watches s1 (Source S) pc"
    by (simp add: watches_def)
  moreover from ctx_Done_keeps[OF ok PromoteGo(2)]
  have "ctx_terminated s1 (StdCtx k) = ctx_terminated s (StdCtx k)"
    "ctx_terminated s1 S = ctx_terminated s S" by simp_all
  ultimately show ?thesis using imp PromoteGo(4) t by simp
next
  case (SourceDone pc k' c)
  with m have "pc = chan_of s S" by (simp add: watches_def)
  with SourceDone(3) Sv have "ctx_terminated s S" by (simp add: ctx_terminated_chan)
  with SourceDone m imp show ?thesis by simp
next
  case (PromoteDone pc k' c)
  with imp show ?thesis by simp
next
  case (StdCancelCall k')
  with m have tm: "ctx_terminated s S" by simp
  from ctx_terminated_evolves[OF ok evolves_std_cancel[OF StdCancelCall(2)] tm] StdCancelCall
  show ?thesis by simp
qed (use m in simp_all)

lemma mirror_exec:
  assumes ok: "world_ok s" and ve: "valid_event s e" and nr: "e \<noteq> Call_Release (CancelFunc k)"
    and Sv: "ctx_valid s S" and kv: "k < length (ctxs s)" and n: "n < length (procs s)"
    and m: "mirroring s S k (procs s ! n)"
    and oth: "\<And>i. i < length (procs s) \<Longrightarrow> i \<noteq> n \<Longrightarrow> target (procs s ! i) \<noteq> Some (StdCtx k)"
    and imp: "ctx_terminated s (StdCtx k) \<longrightarrow> ctx_terminated s S"
  shows "n < length (procs (exec s e)) \<and> mirroring (exec s e) S k (procs (exec s e) ! n) \<and>
     (\<forall>i < length (procs (exec s e)). i \<noteq> n \<longrightarrow> target (procs (exec s e) ! i) \<noteq> Some (StdCtx k)) \<and>
     (ctx_terminated (exec s e) (StdCtx k) \<longrightarrow> ctx_terminated (exec s e) S)"
proof (cases "fault s = None")
  case False
  then have "exec s e = s" by (auto simp: exec_def)
  with n m oth imp show ?thesis by simp
next
  case nf: True
  show ?thesis
  proof (cases "\<exists>j. e = Sched n j")
    case True
    then obtain j where e: "e = Sched n j" by blast
    from sched_shape[OF ok, of n j] show ?thesis
    proof (elim disjE exE conjE)
      assume "sched s n j = s"
      with e nf have "exec s e = s" by (simp add: exec_def)
      with n m oth imp show ?thesis by simp
    next
      fix t g' assume mem: "Inr (t, g') \<in> set (gstep s (procs s ! n))"
        and sc: "sched s n j = t\<lparr>procs := (procs s)[n := g']\<rparr>"
      let ?s' = "t\<lparr>procs := (procs s)[n := g']\<rparr>"
      from sc e nf have ex: "exec s e = ?s'" by (simp add: exec_def)
      from mirror_gstep[OF ok world_okD(4)[OF ok n] m Sv imp mem]
      have a: "mirroring t S k g'" "ctx_terminated t (StdCtx k) \<longrightarrow> ctx_terminated t S"
        by simp_all
      from a(1) have "mirroring ?s' S k g'" by (simp add: mirroring_cong[of ?s' t])
      moreover from a(2) have "ctx_terminated ?s' (StdCtx k) \<longrightarrow> ctx_terminated ?s' S"
        by (simp add: ctx_terminated_procs)
      ultimately show ?thesis using n oth by (simp add: ex)
    qed
  next
    case False
    then have ne: "\<And>j. e \<noteq> Sched n j" by blast
    have na: "\<not> aims_at (StdCtx k) e"
    proof (cases e)
      case (Call_Release f)
      with nr show ?thesis by (cases f) auto
    qed simp_all
    have nt: "target (procs s ! i) \<noteq> Some (StdCtx k)" if "e = Sched i j" "i < length (procs s)" for i j
      using that ne oth by blast
    have keep: "ctx_terminated (exec s e) (StdCtx k) = ctx_terminated s (StdCtx k)"
      using ok ve na nt by (rule unaimed_keeps)
    have mono: "ctx_terminated s S \<Longrightarrow> ctx_terminated (exec s e) S"
      using ok evolves_exec by (rule ctx_terminated_evolves)
    from procs_exec1[OF n ne] nf
    have same: "procs (exec s e) ! n = procs s ! n" "n < length (procs (exec s e))"
      by (simp_all add: exec_def)
    have mi: "mirroring (exec s e) S k (procs s ! n)"
      using ok evolves_exec Sv m by (rule mirroring_evolves)
    have pv: "ctx_valid s (StdCtx k)" using kv by (simp add: ctx_valid_def)
    have others: "target (procs (exec s e) ! i) \<noteq> Some (StdCtx k)"
      if "i < length (procs (exec s e))" "i \<noteq> n" for i
    proof
      assume "target (procs (exec s e) ! i) = Some (StdCtx k)"
      from targets_exec[OF ok ve na pv that(1) this] oth that(2) show False by blast
    qed
    from same mi others keep mono imp show ?thesis by auto
  qed
qed

lemma mirror_run:
  "world_ok s \<Longrightarrow> valid_run s es \<Longrightarrow> list_all (\<lambda>e. e \<noteq> Call_Release (CancelFunc k)) es \<Longrightarrow>
   ctx_valid s S \<Longrightarrow> k < length (ctxs s) \<Longrightarrow> n < length (procs s) \<Longrightarrow>
   mirroring s S k (procs s ! n) \<Longrightarrow>
   (\<forall>i < length (procs s). i \<noteq> n \<longrightarrow> target (procs s ! i) \<noteq> Some (StdCtx k)) \<Longrightarrow>
   (ctx_terminated s (StdCtx k) \<longrightarrow> ctx_terminated s S) \<Longrightarrow>
   (ctx_terminated (run s es) (StdCtx k) \<longrightarrow> ctx_terminated (run s es) S)"
proof (induction es arbitrary: s)
  case Nil
  then show ?case by simp
next
  case (Cons e es)
  from Cons.prems have ve: "valid_event s e" "valid_run (exec s e) es"
    and nr: "e \<noteq> Call_Release (CancelFunc k)" "list_all (\<lambda>e. e \<noteq> Call_Release (CancelFunc k)) es"
    by simp_all
  from Cons.prems(8) have oth: "\<And>i. i < length (procs s) \<Longrightarrow> i \<noteq> n \<Longrightarrow>
      target (procs s ! i) \<noteq> Some (StdCtx k)" by blast
  from mirror_exec[OF Cons.prems(1) ve(1) nr(1) Cons.prems(4,5,6,7) oth Cons.prems(9)]
  have st: "n < length (procs (exec s e))" "mirroring (exec s e) S k (procs (exec s e) ! n)"
    "\<forall>i < length (procs (exec s e)). i \<noteq> n \<longrightarrow> target (procs (exec s e) ! i) \<noteq> Some (StdCtx k)"
    "ctx_terminated (exec s e) (StdCtx k) \<longrightarrow> ctx_terminated (exec s e) S" by simp_all
  from world_ok_exec[OF Cons.prems(1) ve(1)] have ok': "world_ok (exec s e)" by simp
  have Sv': "ctx_valid (exec s e) S" using evolves_exec Cons.prems(4) by (rule ctx_valid_evolves)
  have kv': "k < length (ctxs (exec s e))"
    using evolves_exec[of s e] Cons.prems(5) by (simp add: evolves_def)
  from Cons.IH[OF ok' ve(2) nr(2) Sv' kv' st] show ?case by simp
qed

lemma Promote_pending:
  assumes ok: "world_ok s" and f: "fault s = None" and S: "ctx_valid s S"
    and vr: "valid_run (snd (Promote s S)) es"
    and nr: "list_all (\<lambda>e. e \<noteq> Call_Release (CancelFunc (length (ctxs s)))) es"
    and tm: "ctx_terminated (run (snd (Promote s S)) es) (StdCtx (length (ctxs s)))"
  shows "ctx_terminated (run (snd (Promote s S)) es) S"
proof -
  let ?k = "length (ctxs s)" and ?n = "length (procs s)"
  let ?s1 = "snd (Promote s S)"
  note p = Promote_world[OF ok f S]
  have pr: "procs ?s1 = procs s @ [PromoteGo S ?k]"
    by (simp add: Promote_def WithCancel_def make_chan_def spawn_def)
  have Sv: "ctx_valid ?s1 S" using p(6) by (simp add: trigger_valid_def)
  have m: "mirroring ?s1 S ?k (procs ?s1 ! ?n)" by (simp add: pr)
  have oth: "\<forall>i < length (procs ?s1). i \<noteq> ?n \<longrightarrow> target (procs ?s1 ! i) \<noteq> Some (StdCtx ?k)"
  proof (intro allI impI)
    fix i assume "i < length (procs ?s1)" "i \<noteq> ?n"
    then have i: "i < length (procs s)" by (simp add: pr)
    have "target (procs s ! i) \<noteq> Some (StdCtx ?k)"
    proof
      assume "target (procs s ! i) = Some (StdCtx ?k)"
      from target_valid[OF world_okD(4)[OF ok i] this] show False by (simp add: ctx_valid_def)
    qed
    with i show "target (procs ?s1 ! i) \<noteq> Some (StdCtx ?k)" by (simp add: pr nth_append)
  qed
  have imp: "ctx_terminated ?s1 (StdCtx ?k) \<longrightarrow> ctx_terminated ?s1 S" using p(8) by simp
  from mirror_run[OF p(2) vr nr Sv p(7) p(4) m oth imp] tm show ?thesis by simp
qed

section \<open>Claims\<close>

text \<open>
  C1.  On a well-formed Signal any number \<open>N \<ge> 1\<close> of calls of \<open>Cancel()\<close> does what
  one call does.  Serially: \<open>N\<close> calls in a row return the world that one call
  returns, without panic; in it the Signal is terminated, and \<open>close\<close> has
  executed once if the Signal was pending and not at all if it was terminated.
  Concurrently: with \<open>N\<close> goroutines each running \<open>sig.Cancel()\<close>, under every
  schedule of their steps no step panics, no goroutine that has not returned
  is ever blocked, and once all have returned the world is, apart from the list
  of goroutines, the world one call returns.  They do return: every schedule
  that gives each of the \<open>N\<close> goroutines two steps, in any order, ends with all
  of them returned, the Signal terminated and the world that of one call.
\<close>

theorem Cancel_idempotent:
  assumes ok: "sig_ok s sig" and f: "fault s = None" and N: "1 \<le> N"
  shows "Cancel_times N s sig = Cancel s sig \<and>
    (\<exists>t. Cancel s sig = Inr t \<and> terminated t sig \<and>
          closes t = closes s + (if terminated s sig then 0 else 1)) \<and>
    (\<forall>es. list_all (runs_from (length (procs s))) es \<longrightarrow>
       fault (Cancel_concurrently N s sig es) = None \<and>
       (\<forall>i. length (procs s) \<le> i \<and> i < length (procs (Cancel_concurrently N s sig es)) \<and>
            procs (Cancel_concurrently N s sig es) ! i \<noteq> Exited \<longrightarrow>
            gstep (Cancel_concurrently N s sig es) (procs (Cancel_concurrently N s sig es) ! i) \<noteq> []) \<and>
       (list_all (\<lambda>g. g = Exited) (drop (length (procs s)) (procs (Cancel_concurrently N s sig es))) \<longrightarrow>
          Inr ((Cancel_concurrently N s sig es)\<lparr>procs := procs s\<rparr>) = Cancel s sig) \<and>
       (list_all (\<lambda>i. 2 \<le> count_list es (Sched i 0)) [length (procs s) ..< length (procs s) + N] \<longrightarrow>
          list_all (\<lambda>g. g = Exited) (drop (length (procs s)) (procs (Cancel_concurrently N s sig es))) \<and>
          Inr ((Cancel_concurrently N s sig es)\<lparr>procs := procs s\<rparr>) = Cancel s sig \<and>
          terminated (Cancel_concurrently N s sig es) sig))"
proof (intro conjI allI impI)
  show "Cancel_times N s sig = Cancel s sig" using ok N by (rule Cancel_times_once)
  show "\<exists>t. Cancel s sig = Inr t \<and> terminated t sig \<and>
          closes t = closes s + (if terminated s sig then 0 else 1)"
    using sig_ok_Cancel[OF ok] by blast
next
  fix es assume es: "list_all (runs_from (length (procs s))) es"
  let ?t = "Cancel_concurrently N s sig es"
  have inv: "cancelling s sig N ?t"
    unfolding Cancel_concurrently_def
    using cancelling_start[OF f] es by (rule cancelling_run[OF ok f])
  then show "fault ?t = None" by (simp add: cancelling_def)
  { fix i assume "length (procs s) \<le> i \<and> i < length (procs ?t) \<and> procs ?t ! i \<noteq> Exited"
    then show "gstep ?t (procs ?t ! i) \<noteq> []"
      using cancelling_progress[OF ok inv, of i] by blast }
  { assume "list_all (\<lambda>g. g = Exited) (drop (length (procs s)) (procs ?t))"
    with inv N show "Inr (?t\<lparr>procs := procs s\<rparr>) = Cancel s sig"
      by (rule cancelling_finished) }
  { assume fair: "list_all (\<lambda>i. 2 \<le> count_list es (Sched i 0))
        [length (procs s) ..< length (procs s) + N]"
    from cancelling_all_return[OF ok f es fair]
    show ex: "list_all (\<lambda>g. g = Exited) (drop (length (procs s)) (procs ?t))"
      by (simp add: Cancel_concurrently_def)
    from cancelling_finished[OF inv N ex]
    show eq: "Inr (?t\<lparr>procs := procs s\<rparr>) = Cancel s sig" .
    from sig_ok_Cancel[OF ok] obtain b where b: "Cancel s sig = Inr b" "terminated b sig" by blast
    with eq have "terminated (?t\<lparr>procs := procs s\<rparr>) sig" by simp
    then show "terminated ?t sig"
      by (simp add: terminated_def ready_def cong: option.case_cong) }
qed

theorem Cancel_idempotent_witness:
  "sig_ok (run world0 [Call_New]) 0 \<and> fault (run world0 [Call_New]) = None \<and> (1::nat) \<le> 2 \<and>
   list_all (runs_from (length (procs (run world0 [Call_New]))))
     [Sched 0 0, Sched 1 0, Sched 1 0, Sched 0 0] \<and>
   list_all (\<lambda>g. g = Exited) (drop (length (procs (run world0 [Call_New])))
     (procs (Cancel_concurrently 2 (run world0 [Call_New]) 0 [Sched 0 0, Sched 1 0, Sched 1 0, Sched 0 0]))) \<and>
   list_all (\<lambda>i. 2 \<le> count_list [Sched 0 0, Sched 1 0, Sched 1 0, Sched 0 0] (Sched i 0))
     [length (procs (run world0 [Call_New])) ..< length (procs (run world0 [Call_New])) + 2] \<and>
   terminated (Cancel_concurrently 2 (run world0 [Call_New]) 0 [Sched 0 0, Sched 1 0, Sched 1 0, Sched 0 0]) 0 \<and>
   Cancel_times 2 (run world0 [Call_New]) 0 = Cancel (run world0 [Call_New]) 0 \<and>
   Inr ((Cancel_concurrently 2 (run world0 [Call_New]) 0 [Sched 0 0, Sched 1 0, Sched 1 0, Sched 0 0])
          \<lparr>procs := procs (run world0 [Call_New])\<rparr>) = Cancel (run world0 [Call_New]) 0"
proof -
  have h1: "sig_ok (run world0 [Call_New]) 0" by code_simp
  have h2: "fault (run world0 [Call_New]) = None" by code_simp
  have h3: "(1::nat) \<le> 2" by simp
  have h4: "list_all (runs_from (length (procs (run world0 [Call_New]))))
     [Sched 0 0, Sched 1 0, Sched 1 0, Sched 0 0]" by code_simp
  have h5: "list_all (\<lambda>g. g = Exited) (drop (length (procs (run world0 [Call_New])))
     (procs (Cancel_concurrently 2 (run world0 [Call_New]) 0 [Sched 0 0, Sched 1 0, Sched 1 0, Sched 0 0])))"
    by code_simp
  have h6: "list_all (\<lambda>i. 2 \<le> count_list [Sched 0 0, Sched 1 0, Sched 1 0, Sched 0 0] (Sched i 0))
     [length (procs (run world0 [Call_New])) ..< length (procs (run world0 [Call_New])) + 2]"
    by code_simp
  from Cancel_idempotent[OF h1 h2 h3] h1 h2 h3 h4 h5 h6 show ?thesis by blast
qed

text \<open>
  C2.  Terminated is absorbing: from a world in which the Signal is terminated,
  whatever operations are called and however the goroutines and the clock
  proceed afterwards (any list of events: New, Done, Cancel, Timeout, Deadline,
  Propagate, Promote, release, goroutine steps, clock ticks), the Signal is
  still terminated and an observer calling \<open>Done()\<close> finds the channel closed.
\<close>

theorem terminated_absorbing:
  assumes ok: "sig_ok s sig" and tm: "terminated s sig"
  shows "terminated (run s es) sig \<and> observe (run s es) sig = Some True"
proof -
  from tm obtain c where c: "done_ch (sigs s ! sig) = Some c" "c < length (chans s)" "chans s ! c"
    and v: "sig < length (sigs s)"
    by (auto simp: terminated_def ready_def split: option.splits)
  from ok c have m: "make_once (sigs s ! sig)" by (simp add: sig_ok_def)
  let ?t = "run s es"
  from made_run[OF v m, of es] c have t: "sig < length (sigs ?t)" "make_once (sigs ?t ! sig)"
    "done_ch (sigs ?t ! sig) = Some c" by simp_all
  have r: "ready ?t (Some c)" using c by (intro closed_run)
  from t r show ?thesis
    by (simp add: terminated_def observe_def Done_made)
qed

theorem terminated_absorbing_witness:
  "sig_ok (run world0 [Call_New, Call_Cancel 0]) 0 \<and>
   terminated (run world0 [Call_New, Call_Cancel 0]) 0 \<and>
   observe (run (run world0 [Call_New, Call_Cancel 0])
              [Call_Cancel 0, Call_Timeout 0 1, Sched 0 0, Tick 1, Sched 0 0, Sched 0 0,
               Call_Propagate 0 (SignalCtx 0), Call_Done 0]) 0 = Some True"
proof -
  have h1: "sig_ok (run world0 [Call_New, Call_Cancel 0]) 0" by code_simp
  have h2: "terminated (run world0 [Call_New, Call_Cancel 0]) 0" by code_simp
  from terminated_absorbing[OF h1 h2] h1 h2 show ?thesis by blast
qed

text \<open>
  C3 as the code has it.  \<open>New\<close> is \<open>&Signal{}\<close> followed by \<open>init()\<close>: the
  notifier is made during construction.  On return the channel exists and is
  open and the \<open>make\<close> Once has run; nothing else in the world has changed,
  and the first \<open>Done()\<close> afterwards returns that channel and makes nothing.
\<close>

theorem New_initialises:
  "New s = Inr (length (sigs s),
       s\<lparr>chans := chans s @ [False],
         sigs := sigs s @ [\<lparr>done_ch = Some (length (chans s)), make_once = True, close_once = False\<rparr>]\<rparr>)
   \<and> New s = (case alloc_Signal s of (sig, s1) \<Rightarrow> map_sum id (Pair sig) (init s1 sig))
   \<and> Done (s\<lparr>chans := chans s @ [False],
         sigs := sigs s @ [\<lparr>done_ch = Some (length (chans s)), make_once = True, close_once = False\<rparr>]\<rparr>)
        (length (sigs s)) =
       Inr (Some (length (chans s)),
         s\<lparr>chans := chans s @ [False],
           sigs := sigs s @ [\<lparr>done_ch = Some (length (chans s)), make_once = True, close_once = False\<rparr>]\<rparr>)"
  by (simp add: New_def Done_def alloc_Signal_def init_def make_chan_def zero_Signal_def)

text \<open>
  C3 as stated fails: in the empty world \<open>&Signal{}\<close> alone makes no channel,
  and \<open>New()\<close> returns with a channel made and the \<open>make\<close> Once spent.
\<close>

theorem New_eager_counterexample:
  "alloc_Signal world0 = (0, world0\<lparr>sigs := [\<lparr>done_ch = None, make_once = False, close_once = False\<rparr>]\<rparr>)
   \<and> New world0 = Inr (0, world0\<lparr>chans := [False],
        sigs := [\<lparr>done_ch = Some 0, make_once = True, close_once = False\<rparr>]\<rparr>)"
  by (simp add: New_def alloc_Signal_def init_def make_chan_def zero_Signal_def world0_def)

text \<open>
  C4.  On a well-formed Signal \<open>Done()\<close> does not panic and returns a non-nil
  channel; every later call, after any events, returns that same channel and
  changes nothing; and whenever the Signal is terminated, before the first call
  or at any later one, the channel returned is closed.
\<close>

theorem Done_same_channel:
  assumes ok: "sig_ok s sig"
  shows "\<exists>c s1. Done s sig = Inr (Some c, s1) \<and>
           (terminated s sig \<longrightarrow> ready s1 (Some c)) \<and>
           (\<forall>es. Done (run s1 es) sig = Inr (Some c, run s1 es) \<and>
                 (terminated (run s1 es) sig \<longrightarrow> ready (run s1 es) (Some c)))"
proof -
  from Done_ok[OF ok] obtain c s1 where d: "Done s sig = Inr (Some c, s1)" "sig_ok s1 sig"
    "make_once (sigs s1 ! sig)" "done_ch (sigs s1 ! sig) = Some c" "c < length (chans s1)"
    "terminated s sig \<longrightarrow> chans s1 ! c" by blast
  from d(2) have v: "sig < length (sigs s1)" by (simp add: sig_ok_def)
  have "Done (run s1 es) sig = Inr (Some c, run s1 es) \<and>
        (terminated (run s1 es) sig \<longrightarrow> ready (run s1 es) (Some c))" for es
    using made_run[OF v d(3), of es] d(4) by (simp add: Done_made terminated_def)
  with d show ?thesis by (auto simp: ready_def)
qed

theorem Done_same_channel_witness:
  "sig_ok (run world0 [Call_Zero]) 0 \<and>
   (\<exists>c s1. Done (run world0 [Call_Zero]) 0 = Inr (Some c, s1) \<and>
      Done (run s1 [Call_Cancel 0, Call_Done 0]) 0 = Inr (Some c, run s1 [Call_Cancel 0, Call_Done 0]))"
proof -
  have h: "sig_ok (run world0 [Call_Zero]) 0" by code_simp
  from Done_same_channel[OF h] h show ?thesis by blast
qed

text \<open>
  C5.  \<open>Deadline(t)\<close> is \<open>Timeout\<close> of the Duration that remains until \<open>t\<close>: the
  same Signal is returned and the same goroutine started.  That Duration is the
  difference \<open>t - now\<close> whenever the difference is a Duration (fits 64 bits).
\<close>

theorem Deadline_is_Timeout:
  "Deadline s sig t = Timeout s sig (Until s t) \<and>
   (minDuration \<le> t - clock s \<longrightarrow> t - clock s \<le> maxDuration \<longrightarrow>
      Deadline s sig t = Timeout s sig (t - clock s))"
  by (simp add: Deadline_def Until_def Sub_def)

theorem Deadline_is_Timeout_witness:
  "minDuration \<le> 1500 - clock (run world0 [Call_New, Tick 1000]) \<and>
   1500 - clock (run world0 [Call_New, Tick 1000]) \<le> maxDuration \<and>
   Deadline (run world0 [Call_New, Tick 1000]) 0 1500 =
     Timeout (run world0 [Call_New, Tick 1000]) 0 500"
proof -
  have c: "clock (run world0 [Call_New, Tick 1000]) = 1000" by code_simp
  have lo: "minDuration \<le> 1500 - clock (run world0 [Call_New, Tick 1000])"
    unfolding c by (simp add: minDuration_def)
  have hi: "1500 - clock (run world0 [Call_New, Tick 1000]) \<le> maxDuration"
    unfolding c by (simp add: maxDuration_def)
  have d: "1500 - clock (run world0 [Call_New, Tick 1000]) = 500"
    unfolding c by simp
  from Deadline_is_Timeout[of "run world0 [Call_New, Tick 1000]" 0 1500] lo hi
  have "Deadline (run world0 [Call_New, Tick 1000]) 0 1500 =
     Timeout (run world0 [Call_New, Tick 1000]) 0 (1500 - clock (run world0 [Call_New, Tick 1000]))"
    by blast
  with lo hi d show ?thesis by (simp only: simp_thms)
qed

text \<open>
  C6.  A Timeout whose duration is zero or negative, and a Deadline whose
  instant is not after the clock, fire at once: wherever the program is after
  the call (any valid events in between), the goroutine started by the call
  is never blocked and needs no tick of the clock: four steps given by the
  scheduler are enough for it to call \<open>Cancel()\<close> and return, and whenever it
  has returned the Signal is terminated.  Nothing panics on the way.
\<close>

theorem elapsed_timeout_fires:
  assumes ok: "world_ok s" and f: "fault s = None" and v: "sig < length (sigs s)"
  shows "(d \<le> 0 \<longrightarrow> (\<forall>es. valid_run (snd (Timeout s sig d)) es \<longrightarrow>
            fault (run (snd (Timeout s sig d)) es) = None \<and>
            fires (run (snd (Timeout s sig d)) es) (length (procs s)) (SignalCtx sig))) \<and>
         (t \<le> clock s \<longrightarrow> (\<forall>es. valid_run (snd (Deadline s sig t)) es \<longrightarrow>
            fault (run (snd (Deadline s sig t)) es) = None \<and>
            fires (run (snd (Deadline s sig t)) es) (length (procs s)) (SignalCtx sig)))"
proof (intro conjI impI allI)
  fix es assume "d \<le> 0" "valid_run (snd (Timeout s sig d)) es"
  from Timeout_elapsed[OF ok f v this]
  show "fault (run (snd (Timeout s sig d)) es) = None"
    "fires (run (snd (Timeout s sig d)) es) (length (procs s)) (SignalCtx sig)" by simp_all
next
  fix es assume t: "t \<le> clock s" and vr: "valid_run (snd (Deadline s sig t)) es"
  have eq: "Deadline s sig t = Timeout s sig (Until s t)" by (simp add: Deadline_def)
  from Timeout_elapsed[OF ok f v Until_elapsed[OF t] vr[unfolded eq]]
  show "fault (run (snd (Deadline s sig t)) es) = None"
    "fires (run (snd (Deadline s sig t)) es) (length (procs s)) (SignalCtx sig)"
    unfolding eq by simp_all
qed

theorem elapsed_timeout_fires_witness:
  "world_ok (run world0 [Call_New, Tick 10]) \<and> fault (run world0 [Call_New, Tick 10]) = None \<and>
   0 < length (sigs (run world0 [Call_New, Tick 10])) \<and> (0::int) \<le> 0 \<and>
   5 \<le> clock (run world0 [Call_New, Tick 10]) \<and>
   valid_run (snd (Timeout (run world0 [Call_New, Tick 10]) 0 0)) [Call_Done 0] \<and>
   valid_run (snd (Deadline (run world0 [Call_New, Tick 10]) 0 5)) [Call_Done 0] \<and>
   fires (run (snd (Timeout (run world0 [Call_New, Tick 10]) 0 0)) [Call_Done 0])
     (length (procs (run world0 [Call_New, Tick 10]))) (SignalCtx 0) \<and>
   fires (run (snd (Deadline (run world0 [Call_New, Tick 10]) 0 5)) [Call_Done 0])
     (length (procs (run world0 [Call_New, Tick 10]))) (SignalCtx 0)"
proof -
  have v0: "valid_run world0 [Call_New, Tick 10]" by code_simp
  have h1: "world_ok (run world0 [Call_New, Tick 10])"
    using world_ok_run[OF world_ok_world0 v0] by blast
  have h2: "fault (run world0 [Call_New, Tick 10]) = None" by code_simp
  have h3: "0 < length (sigs (run world0 [Call_New, Tick 10]))" by code_simp
  have h4: "(0::int) \<le> 0" by simp
  have h5: "5 \<le> clock (run world0 [Call_New, Tick 10])" by code_simp
  have h6: "valid_run (snd (Timeout (run world0 [Call_New, Tick 10]) 0 0)) [Call_Done 0]"
    by code_simp
  have h7: "valid_run (snd (Deadline (run world0 [Call_New, Tick 10]) 0 5)) [Call_Done 0]"
    by code_simp
  from elapsed_timeout_fires[OF h1 h2 h3, of 0 5] h1 h2 h3 h4 h5 h6 h7 show ?thesis by blast
qed



text \<open>
  C8.  \<open>Promote(S)\<close> returns a fresh standard-library context, pending, with
  its cancel function as the release function.  (a) Whenever the source \<open>S\<close>
  is terminated, the mirroring goroutine, given its steps, cancels the returned
  context; and as long as release is not invoked, the returned context is
  terminated only if the source is, after any valid events.  (b) When release
  is invoked while \<open>S\<close> is pending, then whatever happens afterwards, a later
  cancellation of \<open>S\<close> included, nothing panics, the mirroring goroutine, given
  its steps, returns, and the state of the returned context stays what release
  left.
\<close>

theorem Promote_mirrors:
  assumes ok: "world_ok s" and f: "fault s = None" and S: "ctx_valid s S"
  shows "fst (Promote s S) = (StdCtx (length (ctxs s)), CancelFunc (length (ctxs s))) \<and>
    \<not> ctx_terminated (snd (Promote s S)) (StdCtx (length (ctxs s))) \<and>
    (\<forall>es. valid_run (snd (Promote s S)) es \<longrightarrow>
          ctx_terminated (run (snd (Promote s S)) es) S \<longrightarrow>
          fires (run (snd (Promote s S)) es) (length (procs s)) (StdCtx (length (ctxs s)))) \<and>
    (\<forall>es. valid_run (snd (Promote s S)) es \<longrightarrow>
          list_all (\<lambda>e. e \<noteq> Call_Release (CancelFunc (length (ctxs s)))) es \<longrightarrow>
          ctx_terminated (run (snd (Promote s S)) es) (StdCtx (length (ctxs s))) \<longrightarrow>
          ctx_terminated (run (snd (Promote s S)) es) S) \<and>
    (\<forall>es es'. valid_run (snd (Promote s S)) es \<longrightarrow>
          \<not> ctx_terminated (run (snd (Promote s S)) es) S \<longrightarrow>
          valid_run (release (run (snd (Promote s S)) es) (CancelFunc (length (ctxs s)))) es' \<longrightarrow>
          fault (run (release (run (snd (Promote s S)) es) (CancelFunc (length (ctxs s)))) es') = None \<and>
          fires (run (release (run (snd (Promote s S)) es) (CancelFunc (length (ctxs s)))) es')
            (length (procs s)) (StdCtx (length (ctxs s))) \<and>
          ctxs (run (release (run (snd (Promote s S)) es) (CancelFunc (length (ctxs s)))) es') ! length (ctxs s) =
            ctxs (release (run (snd (Promote s S)) es) (CancelFunc (length (ctxs s)))) ! length (ctxs s))"
proof (intro conjI impI allI)
  note p = Promote_world[OF ok f S]
  show "fst (Promote s S) = (StdCtx (length (ctxs s)), CancelFunc (length (ctxs s)))" by (rule p(1))
  show "\<not> ctx_terminated (snd (Promote s S)) (StdCtx (length (ctxs s)))" by (rule p(8))
  { fix es assume vr: "valid_run (snd (Promote s S)) es"
      and tm: "ctx_terminated (run (snd (Promote s S)) es) S"
    then have "trigger_ready (run (snd (Promote s S)) es) (Source S) \<or>
        ctx_terminated (run (snd (Promote s S)) es) (StdCtx (length (ctxs s)))"
      by (simp add: trigger_ready_def)
    from fires_after[OF p(2,3,4,6,5) vr this]
    show "fires (run (snd (Promote s S)) es) (length (procs s)) (StdCtx (length (ctxs s)))" . }
  { fix es es' assume vr: "valid_run (snd (Promote s S)) es"
      and vr': "valid_run (release (run (snd (Promote s S)) es) (CancelFunc (length (ctxs s)))) es'"
    from fires_released[OF p(2,3,4,6,5,7) vr vr']
    show "fault (run (release (run (snd (Promote s S)) es) (CancelFunc (length (ctxs s)))) es') = None"
      "fires (run (release (run (snd (Promote s S)) es) (CancelFunc (length (ctxs s)))) es')
            (length (procs s)) (StdCtx (length (ctxs s)))"
      "ctxs (run (release (run (snd (Promote s S)) es) (CancelFunc (length (ctxs s)))) es') ! length (ctxs s) =
            ctxs (release (run (snd (Promote s S)) es) (CancelFunc (length (ctxs s)))) ! length (ctxs s)"
      by simp_all }
  { fix es assume vr: "valid_run (snd (Promote s S)) es"
      and nr: "list_all (\<lambda>e. e \<noteq> Call_Release (CancelFunc (length (ctxs s)))) es"
      and tm: "ctx_terminated (run (snd (Promote s S)) es) (StdCtx (length (ctxs s)))"
    from Promote_pending[OF ok f S vr nr tm]
    show "ctx_terminated (run (snd (Promote s S)) es) S" . }
qed

theorem Promote_mirrors_witness:
  "world_ok (run world0 [Call_New]) \<and> fault (run world0 [Call_New]) = None \<and>
   ctx_valid (run world0 [Call_New]) (SignalCtx 0) \<and>
   valid_run (snd (Promote (run world0 [Call_New]) (SignalCtx 0))) [Call_Cancel 0] \<and>
   ctx_terminated (run (snd (Promote (run world0 [Call_New]) (SignalCtx 0))) [Call_Cancel 0]) (SignalCtx 0) \<and>
   fires (run (snd (Promote (run world0 [Call_New]) (SignalCtx 0))) [Call_Cancel 0])
     (length (procs (run world0 [Call_New]))) (StdCtx (length (ctxs (run world0 [Call_New])))) \<and>
   valid_run (snd (Promote (run world0 [Call_New]) (SignalCtx 0))) [Sched 0 0] \<and>
   \<not> ctx_terminated (run (snd (Promote (run world0 [Call_New]) (SignalCtx 0))) [Sched 0 0]) (SignalCtx 0) \<and>
   valid_run (release (run (snd (Promote (run world0 [Call_New]) (SignalCtx 0))) [Sched 0 0])
       (CancelFunc (length (ctxs (run world0 [Call_New]))))) [Call_Cancel 0, Sched 0 0] \<and>
   fires (run (release (run (snd (Promote (run world0 [Call_New]) (SignalCtx 0))) [Sched 0 0])
       (CancelFunc (length (ctxs (run world0 [Call_New]))))) [Call_Cancel 0, Sched 0 0])
     (length (procs (run world0 [Call_New]))) (StdCtx (length (ctxs (run world0 [Call_New])))) \<and>
   valid_run (snd (Promote (run world0 [Call_New]) (SignalCtx 0)))
     [Sched 0 0, Tick 3, Call_Done 0, Sched 0 0, Sched 0 1] \<and>
   list_all (\<lambda>e. e \<noteq> Call_Release (CancelFunc (length (ctxs (run world0 [Call_New])))))
     [Sched 0 0, Tick 3, Call_Done 0, Sched 0 0, Sched 0 1] \<and>
   \<not> ctx_terminated (run (snd (Promote (run world0 [Call_New]) (SignalCtx 0)))
     [Sched 0 0, Tick 3, Call_Done 0, Sched 0 0, Sched 0 1]) (SignalCtx 0) \<and>
   \<not> ctx_terminated (run (snd (Promote (run world0 [Call_New]) (SignalCtx 0)))
     [Sched 0 0, Tick 3, Call_Done 0, Sched 0 0, Sched 0 1]) (StdCtx (length (ctxs (run world0 [Call_New]))))"
proof -
  have v0: "valid_run world0 [Call_New]" by code_simp
  have h1: "world_ok (run world0 [Call_New])"
    using world_ok_run[OF world_ok_world0 v0] by blast
  have h2: "fault (run world0 [Call_New]) = None" by code_simp
  have h3: "ctx_valid (run world0 [Call_New]) (SignalCtx 0)" by code_simp
  have h4: "valid_run (snd (Promote (run world0 [Call_New]) (SignalCtx 0))) [Call_Cancel 0]"
    by code_simp
  have h5: "ctx_terminated (run (snd (Promote (run world0 [Call_New]) (SignalCtx 0))) [Call_Cancel 0])
     (SignalCtx 0)" by code_simp
  have h6: "valid_run (snd (Promote (run world0 [Call_New]) (SignalCtx 0))) [Sched 0 0]"
    by code_simp
  have h7: "\<not> ctx_terminated (run (snd (Promote (run world0 [Call_New]) (SignalCtx 0))) [Sched 0 0])
     (SignalCtx 0)" by code_simp
  have h8: "valid_run (release (run (snd (Promote (run world0 [Call_New]) (SignalCtx 0))) [Sched 0 0])
       (CancelFunc (length (ctxs (run world0 [Call_New]))))) [Call_Cancel 0, Sched 0 0]"
    by code_simp
  have h9: "valid_run (snd (Promote (run world0 [Call_New]) (SignalCtx 0)))
     [Sched 0 0, Tick 3, Call_Done 0, Sched 0 0, Sched 0 1]" by code_simp
  have h10: "list_all (\<lambda>e. e \<noteq> Call_Release (CancelFunc (length (ctxs (run world0 [Call_New])))))
     [Sched 0 0, Tick 3, Call_Done 0, Sched 0 0, Sched 0 1]" by code_simp
  have h11: "\<not> ctx_terminated (run (snd (Promote (run world0 [Call_New]) (SignalCtx 0)))
     [Sched 0 0, Tick 3, Call_Done 0, Sched 0 0, Sched 0 1]) (SignalCtx 0)" by code_simp
  from Promote_mirrors[OF h1 h2 h3] h1 h2 h3 h4 h5 h6 h7 h8 h9 h10 h11 show ?thesis by blast
qed

text \<open>
  C9.  The release function of \<open>Promote\<close> is the cancel function of the context
  returned with it.  Invoked at any time after \<open>Promote\<close>, it does not panic and
  leaves that context terminated, whether or not the source was ever canceled;
  the source is terminated afterwards exactly if it was before; and the mirroring
  goroutine, given its steps, returns.
\<close>

theorem release_is_cancel:
  assumes ok: "world_ok s" and f: "fault s = None" and S: "ctx_valid s S"
  shows "fst (Promote s S) = (StdCtx (length (ctxs s)), CancelFunc (length (ctxs s))) \<and>
    (\<forall>es. valid_run (snd (Promote s S)) es \<longrightarrow>
       fault (release (run (snd (Promote s S)) es) (snd (fst (Promote s S)))) = None \<and>
       ctx_terminated (release (run (snd (Promote s S)) es) (snd (fst (Promote s S))))
         (fst (fst (Promote s S))) \<and>
       ctx_terminated (release (run (snd (Promote s S)) es) (snd (fst (Promote s S)))) S =
         ctx_terminated (run (snd (Promote s S)) es) S \<and>
       fires (release (run (snd (Promote s S)) es) (snd (fst (Promote s S))))
         (length (procs s)) (fst (fst (Promote s S))))"
proof (intro conjI impI allI)
  note p = Promote_world[OF ok f S]
  let ?k = "length (ctxs s)"
  show "fst (Promote s S) = (StdCtx ?k, CancelFunc ?k)" by (rule p(1))
  fix es assume vr: "valid_run (snd (Promote s S)) es"
  let ?u = "run (snd (Promote s S)) es"
  from world_ok_run[OF p(2) vr] p(3) have u: "world_ok ?u" "fault ?u = None" by simp_all
  from evolves_run[of "snd (Promote s S)" es] p(7) have ku: "?k < length (ctxs ?u)"
    by (simp add: evolves_def)
  note r = release_ok[OF u ku]
  show "fault (release ?u (snd (fst (Promote s S)))) = None" using r(2) by (simp add: p(1))
  show "ctx_terminated (release ?u (snd (fst (Promote s S)))) (fst (fst (Promote s S)))"
    using r(3) by (simp add: p(1))
  show "ctx_terminated (release ?u (snd (fst (Promote s S)))) S = ctx_terminated ?u S"
    using r(4)[OF p(9)] by (simp add: p(1))
  have "valid_run (release ?u (CancelFunc ?k)) []" by simp
  from fires_released[OF p(2,3,4,6,5,7) vr this]
  show "fires (release ?u (snd (fst (Promote s S)))) (length (procs s)) (fst (fst (Promote s S)))"
    by (simp add: p(1))
qed

theorem release_is_cancel_witness:
  "world_ok (run world0 [Call_New]) \<and> fault (run world0 [Call_New]) = None \<and>
   ctx_valid (run world0 [Call_New]) (SignalCtx 0) \<and>
   valid_run (snd (Promote (run world0 [Call_New]) (SignalCtx 0))) [Sched 0 0] \<and>
   \<not> ctx_terminated (run (snd (Promote (run world0 [Call_New]) (SignalCtx 0))) [Sched 0 0]) (SignalCtx 0) \<and>
   ctx_terminated
     (release (run (snd (Promote (run world0 [Call_New]) (SignalCtx 0))) [Sched 0 0])
        (snd (fst (Promote (run world0 [Call_New]) (SignalCtx 0)))))
     (fst (fst (Promote (run world0 [Call_New]) (SignalCtx 0)))) \<and>
   \<not> ctx_terminated
     (release (run (snd (Promote (run world0 [Call_New]) (SignalCtx 0))) [Sched 0 0])
        (snd (fst (Promote (run world0 [Call_New]) (SignalCtx 0))))) (SignalCtx 0) \<and>
   fires
     (release (run (snd (Promote (run world0 [Call_New]) (SignalCtx 0))) [Sched 0 0])
        (snd (fst (Promote (run world0 [Call_New]) (SignalCtx 0)))))
     (length (procs (run world0 [Call_New]))) (fst (fst (Promote (run world0 [Call_New]) (SignalCtx 0))))"
proof -
  have v0: "valid_run world0 [Call_New]" by code_simp
  have h1: "world_ok (run world0 [Call_New])"
    using world_ok_run[OF world_ok_world0 v0] by blast
  have h2: "fault (run world0 [Call_New]) = None" by code_simp
  have h3: "ctx_valid (run world0 [Call_New]) (SignalCtx 0)" by code_simp
  have h4: "valid_run (snd (Promote (run world0 [Call_New]) (SignalCtx 0))) [Sched 0 0]"
    by code_simp
  have h5: "\<not> ctx_terminated (run (snd (Promote (run world0 [Call_New]) (SignalCtx 0))) [Sched 0 0])
     (SignalCtx 0)" by code_simp
  from release_is_cancel[OF h1 h2 h3] h1 h2 h3 h4 h5 show ?thesis by blast
qed

text \<open>
  C10.  A zero-value Signal (\<open>&Signal{}\<close>, no call of \<open>New\<close>) is usable.  Its
  channel is nil until the first call; \<open>Done()\<close> and \<open>Cancel()\<close> each make the
  channel on first use, and \<open>New()\<close> leaves the world that \<open>&Signal{}\<close>
  followed by \<open>Done()\<close> leaves.  In a well-formed world, after any events,
  \<open>Done()\<close> returns a non-nil channel \<open>c\<close> and \<open>Cancel()\<close> closes that same
  \<open>c\<close>, in either order of the two calls, and neither panics.
\<close>

theorem zero_value_usable:
  "fst (alloc_Signal s) = length (sigs s) \<and>
   done_ch (sigs (snd (alloc_Signal s)) ! length (sigs s)) = None \<and>
   Done (snd (alloc_Signal s)) (length (sigs s)) =
     Inr (Some (length (chans s)),
          s\<lparr>chans := chans s @ [False],
            sigs := sigs s @ [\<lparr>done_ch = Some (length (chans s)), make_once = True, close_once = False\<rparr>]\<rparr>) \<and>
   Cancel (snd (alloc_Signal s)) (length (sigs s)) =
     Inr (s\<lparr>chans := chans s @ [True],
            sigs := sigs s @ [\<lparr>done_ch = Some (length (chans s)), make_once = True, close_once = True\<rparr>],
            closes := closes s + 1\<rparr>) \<and>
   map_sum id snd (New s) = map_sum id snd (Done (snd (alloc_Signal s)) (length (sigs s))) \<and>
   (world_ok s \<longrightarrow>
      (\<forall>es. valid_run (snd (alloc_Signal s)) es \<longrightarrow>
         (\<exists>c t1 t2.
             Done (run (snd (alloc_Signal s)) es) (length (sigs s)) = Inr (Some c, t1) \<and>
             Cancel (run (snd (alloc_Signal s)) es) (length (sigs s)) = Inr t2 \<and>
             Done t1 (length (sigs s)) = Inr (Some c, t1) \<and>
             Cancel t1 (length (sigs s)) = Inr t2 \<and>
             Done t2 (length (sigs s)) = Inr (Some c, t2) \<and>
             Cancel t2 (length (sigs s)) = Inr t2 \<and>
             ready t2 (Some c))))"
proof (intro conjI impI allI)
  let ?z = "snd (alloc_Signal s)" and ?sig = "length (sigs s)"
  show "fst (alloc_Signal s) = ?sig" by (simp add: alloc_Signal_def)
  show "done_ch (sigs ?z ! ?sig) = None" by (simp add: alloc_Signal_def zero_Signal_def)
  show "Done ?z ?sig = Inr (Some (length (chans s)),
          s\<lparr>chans := chans s @ [False],
            sigs := sigs s @ [\<lparr>done_ch = Some (length (chans s)), make_once = True, close_once = False\<rparr>]\<rparr>)"
    by (simp add: Done_def init_def make_chan_def alloc_Signal_def zero_Signal_def)
  show "Cancel ?z ?sig = Inr (s\<lparr>chans := chans s @ [True],
            sigs := sigs s @ [\<lparr>done_ch = Some (length (chans s)), make_once = True, close_once = True\<rparr>],
            closes := closes s + 1\<rparr>)"
    by (simp add: Cancel_def init_def make_chan_def close_Do_def close_chan_def alloc_Signal_def zero_Signal_def)
  show "map_sum id snd (New s) = map_sum id snd (Done ?z ?sig)"
    by (simp add: New_def Done_def alloc_Signal_def split: sum.splits)
next
  let ?z = "snd (alloc_Signal s)" and ?sig = "length (sigs s)"
  fix es assume ok: "world_ok s" and v: "valid_run ?z es"
  let ?t = "run ?z es"
  have okz: "world_ok ?z" using ok by (rule world_ok_alloc)
  have "?sig < length (sigs ?z)" by (simp add: alloc_Signal_def)
  with evolves_run[of ?z es] have vt: "?sig < length (sigs ?t)" by (simp add: evolves_def)
  from world_ok_run[OF okz v] have "world_ok ?t" by simp
  from world_okD(1)[OF this vt] have so: "sig_ok ?t ?sig" .
  from sig_ok_Cancel[OF so] obtain a b where ab: "init ?t ?sig = Inr a" "close_Do a ?sig = Inr b"
    "Cancel ?t ?sig = Inr b" "init a ?sig = Inr a" "init b ?sig = Inr b" "close_Do b ?sig = Inr b"
    "Cancel b ?sig = Inr b" "terminated b ?sig"
    "done_ch (sigs a ! ?sig) \<noteq> None" "done_ch (sigs b ! ?sig) = done_ch (sigs a ! ?sig)" by blast
  then obtain c where c: "done_ch (sigs a ! ?sig) = Some c" by auto
  with ab(10) have cb: "done_ch (sigs b ! ?sig) = Some c" by simp
  have "Done ?t ?sig = Inr (Some c, a)" using ab(1) c by (simp add: Done_def)
  moreover have "Done a ?sig = Inr (Some c, a)" using ab(4) c by (simp add: Done_def)
  moreover have "Cancel a ?sig = Inr b" using ab(4,2) by (simp add: Cancel_def)
  moreover have "Done b ?sig = Inr (Some c, b)" using ab(5) cb by (simp add: Done_def)
  moreover have "ready b (Some c)" using ab(8) cb by (simp add: terminated_def)
  ultimately show "\<exists>c t1 t2.
             Done ?t ?sig = Inr (Some c, t1) \<and> Cancel ?t ?sig = Inr t2 \<and>
             Done t1 ?sig = Inr (Some c, t1) \<and> Cancel t1 ?sig = Inr t2 \<and>
             Done t2 ?sig = Inr (Some c, t2) \<and> Cancel t2 ?sig = Inr t2 \<and> ready t2 (Some c)"
    using ab(3,7) by blast
qed

theorem zero_value_usable_witness:
  "world_ok world0 \<and>
   valid_run (snd (alloc_Signal world0)) [Go_Cancel 0, Call_Timeout 0 3, Sched 0 0, Sched 1 0] \<and>
   (\<exists>c t1. Done (run (snd (alloc_Signal world0)) [Go_Cancel 0, Call_Timeout 0 3, Sched 0 0, Sched 1 0])
              (length (sigs world0)) = Inr (Some c, t1))"
proof -
  have h1: "world_ok world0" by (simp add: world_ok_def world0_def separate_def)
  have h2: "valid_run (snd (alloc_Signal world0)) [Go_Cancel 0, Call_Timeout 0 3, Sched 0 0, Sched 1 0]"
    by code_simp
  from zero_value_usable[of world0] h1 h2 show ?thesis by blast
qed

end
